theory Spec2Isabelle
  imports Complex_Main "HOL-Library.Log_Nat"
begin

section \<open>The mine field generator of discord.js-minesweeper\<close>

text \<open>
  A shallow embedding of \<^verbatim>\<open>src/Minesweeper.ts\<close>. The class instance is a record that
  every method takes and returns. A JavaScript number is modelled as an \<open>int\<close> where the
  code uses it as a size, a counter or an index, and as a \<open>real\<close> where it is a value of
  the random source. The products that \<^verbatim>\<open>plantMines\<close> and \<^verbatim>\<open>start\<close> form are rounded as
  the IEEE doubles of the source are (\<open>double_product\<close> below). The product in
  \<^verbatim>\<open>revealFirst\<close> is the exact one: it only selects an element of a list, and the rounded
  product of a double in \<open>[0, 1)\<close> and a length selects an element as well
  (\<open>double_product_index\<close>). The
  random source \<^verbatim>\<open>rng\<close> is a closure with hidden state: it is modelled as the infinite
  sequence of the values it will return, together with the number of calls made so far.
  A string is a list of characters, one per UTF-16 code unit of the source's string.
\<close>

subsection \<open>Numbers of the host language\<close>

text \<open>
  The nearest integer, a tie going to the even one.
\<close>

definition round_even :: "real \<Rightarrow> int" where
  "round_even y =
     (let f = \<lfloor>y\<rfloor>; c = \<lceil>y\<rceil>
      in if y - of_int f < of_int c - y then f
         else if of_int c - y < y - of_int f then c
         else if even f then f else c)"

definition pow2 :: "int \<Rightarrow> real" where
  "pow2 e = 2 powr real_of_int e"

text \<open>The exponent of the power of two at or next below \<open>\<bar>x\<bar>\<close>.\<close>

definition binade :: "real \<Rightarrow> int" where
  "binade x = \<lfloor>log 2 \<bar>x\<bar>\<rfloor>"

text \<open>
  The double nearest to a real \<open>x \<ge> 0\<close> (round to nearest, ties to even, the rounding
  of every arithmetic operation of the host language). Between \<open>2^e\<close> and \<open>2^(e+1)\<close> the
  doubles are the multiples of \<open>2^(e-52)\<close>; below \<open>2^(-1022)\<close>, among the subnormal numbers,
  they are the multiples of \<open>2^(-1074)\<close>. A rounded value of \<open>2^1024\<close> or more is
  \<^verbatim>\<open>Infinity\<close>, for which the number \<open>2^1024\<close> stands: it is above every finite double,
  as \<^verbatim>\<open>Infinity\<close> is, and no index of an array.
\<close>

definition double_abs :: "real \<Rightarrow> real" where
  "double_abs x =
     (if x = 0 then 0
      else
        (let ulp = pow2 (max (binade x) (- 1022) - 52)
         in min (pow2 1024) (of_int (round_even (x / ulp)) * ulp)))"

text \<open>Rounding is symmetric about 0.\<close>

definition to_double :: "real \<Rightarrow> real" where
  "to_double x = (if x < 0 then - double_abs (- x) else double_abs x)"

text \<open>\<^verbatim>\<open>a * b\<close> on two numbers: the exact product, rounded.\<close>

definition double_product :: "real \<Rightarrow> real \<Rightarrow> real" where
  "double_product a b = to_double (a * b)"

subsection \<open>Strings and arrays of the host language\<close>

text \<open>\<^verbatim>\<open>String.prototype.slice(start, end)\<close>: negative positions count from the end.\<close>

definition slice :: "string \<Rightarrow> int \<Rightarrow> int \<Rightarrow> string" where
  "slice str start fin =
     (let len = int (length str);
          k_from = (if start < 0 then max (len + start) 0 else min start len);
          k_to = (if fin < 0 then max (len + fin) 0 else min fin len)
      in take (nat (k_to - k_from)) (drop (nat k_from) str))"

text \<open>\<^verbatim>\<open>String.prototype.includes(t)\<close>: \<open>t\<close> occurs in the string as a contiguous block.\<close>

fun str_includes :: "string \<Rightarrow> string \<Rightarrow> bool" where
  "str_includes [] t = (t = [])"
| "str_includes (c # cs) t = (take (length t) (c # cs) = t \<or> str_includes cs t)"

text \<open>\<^verbatim>\<open>Array.prototype.join(sep)\<close> on an array of strings.\<close>

fun join :: "string \<Rightarrow> string list \<Rightarrow> string" where
  "join sep [] = []"
| "join sep [a] = a"
| "join sep (a # b # bs) = a @ sep @ join sep (b # bs)"

text \<open>
  Reading \<^verbatim>\<open>arr[i]\<close> from a dense array: \<open>None\<close> is the source's \<^verbatim>\<open>undefined\<close>, the
  value of every read outside the array.
\<close>

definition at_index :: "'a list \<Rightarrow> int \<Rightarrow> 'a option" where
  "at_index xs i = (if 0 \<le> i \<and> i < int (length xs) then Some (xs ! nat i) else None)"

text \<open>
  What a run can end with besides a value. \<open>TypeError\<close> and \<open>RangeError\<close> are the
  exceptions of the host language (a property read from \<^verbatim>\<open>undefined\<close>, an invalid array
  length). \<open>SparseWrite\<close> is no exception: it marks the one place, in \<^verbatim>\<open>plantMines\<close>,
  where the source would assign to a column outside the row (growing the array or
  setting a property on it), which dense lists do not follow any further. It can only
  happen when the random source leaves \<open>[0, 1)\<close> or the rows are shorter than \<^verbatim>\<open>columns\<close>.
\<close>

datatype error = TypeError | RangeError | SparseWrite

subsection \<open>Data of the class\<close>

datatype ReturnType = Emoji | Code | Matrix

record MinesweeperOpts =
  opt_rows :: "int option"
  opt_columns :: "int option"
  opt_mines :: "int option"
  opt_emote :: "string option"
  opt_revealFirstCell :: "bool option"
  opt_zeroFirstCell :: "bool option"
  opt_spaces :: "bool option"
  opt_rng :: "(nat \<Rightarrow> real) option"
  opt_returnType :: "ReturnType option"

record CellTypes =
  mine :: string
  numbers :: "string list"

text \<open>A \<^verbatim>\<open>SafeCell\<close> \<^verbatim>\<open>{ x, y }\<close> is the pair (row id, column id).\<close>

type_synonym SafeCell = "int \<times> int"

record Minesweeper =
  rows :: int
  columns :: int
  mines :: int
  emote :: string
  spaces :: bool
  revealFirstCell :: bool
  zeroFirstCell :: bool
  returnType :: ReturnType
  rng :: "nat \<Rightarrow> real"
  calls :: nat
  safeCells :: "SafeCell list"
  matrix :: "string list list"

text \<open>What \<^verbatim>\<open>start\<close> returns: a string, the matrix, or \<^verbatim>\<open>null\<close>.\<close>

datatype returned = Text string | Grid "string list list" | Null

subsection \<open>Constructor\<close>

text \<open>
  \<^verbatim>\<open>v || d\<close> replaces a falsy \<open>v\<close> (\<^verbatim>\<open>undefined\<close>, the number 0, the empty string) by \<open>d\<close>;
  \<^verbatim>\<open>v ?? d\<close> replaces only \<^verbatim>\<open>undefined\<close>. \<^verbatim>\<open>opts?.f\<close> is \<^verbatim>\<open>undefined\<close> when \<open>opts\<close> is.
  The three return types are non-empty strings, none of them falsy, so that
  \<^verbatim>\<open>opts?.returnType || 'emoji'\<close> replaces only \<^verbatim>\<open>undefined\<close> as well.
\<close>

definition or_number :: "int option \<Rightarrow> int \<Rightarrow> int" where
  "or_number v d = (case v of None \<Rightarrow> d | Some n \<Rightarrow> if n = 0 then d else n)"

definition or_string :: "string option \<Rightarrow> string \<Rightarrow> string" where
  "or_string v d = (case v of None \<Rightarrow> d | Some str \<Rightarrow> if str = [] then d else str)"

definition nullish :: "'a option \<Rightarrow> 'a \<Rightarrow> 'a" where
  "nullish v d = (case v of None \<Rightarrow> d | Some a \<Rightarrow> a)"

definition field :: "MinesweeperOpts option \<Rightarrow> (MinesweeperOpts \<Rightarrow> 'a option) \<Rightarrow> 'a option" where
  "field opts f = (case opts of None \<Rightarrow> None | Some opt \<Rightarrow> f opt)"

text \<open>
  The first argument stands for \<^verbatim>\<open>Math.random\<close>, the default random source: the values
  it is going to return.
\<close>

definition constructor :: "(nat \<Rightarrow> real) \<Rightarrow> MinesweeperOpts option \<Rightarrow> Minesweeper" where
  "constructor math_random opts =
     \<lparr> rows = or_number (field opts opt_rows) 9,
       columns = or_number (field opts opt_columns) 9,
       mines = or_number (field opts opt_mines) 10,
       emote = or_string (field opts opt_emote) ''boom'',
       spaces = nullish (field opts opt_spaces) True,
       revealFirstCell = nullish (field opts opt_revealFirstCell) False,
       zeroFirstCell = nullish (field opts opt_zeroFirstCell) True,
       returnType = nullish (field opts opt_returnType) Emoji,
       rng = nullish (field opts opt_rng) math_random,
       calls = 0,
       safeCells = [],
       matrix = [] \<rparr>"

text \<open>\<^verbatim>\<open>spoilerize\<close> reads \<^verbatim>\<open>this.spaces\<close>, passed here as the first argument.\<close>

definition spoilerize :: "bool \<Rightarrow> string \<Rightarrow> string" where
  "spoilerize sp str = (if sp then ''|| :'' @ str @ '': ||'' else ''||:'' @ str @ '':||'')"

definition number_names :: "string list" where
  "number_names =
     [''zero'', ''one'', ''two'', ''three'', ''four'', ''five'', ''six'', ''seven'', ''eight'']"

text \<open>
  \<^verbatim>\<open>this.types\<close> is assigned once, in the constructor, from \<^verbatim>\<open>this.emote\<close> and
  \<^verbatim>\<open>this.spaces\<close>; the three are readonly, so it is a function of the instance.
\<close>

definition types :: "Minesweeper \<Rightarrow> CellTypes" where
  "types s = \<lparr> mine = spoilerize (spaces s) (emote s),
               numbers = map (spoilerize (spaces s)) number_names \<rparr>"

text \<open>One call of \<^verbatim>\<open>this.rng()\<close>: the next value of the sequence.\<close>

definition next_rng :: "Minesweeper \<Rightarrow> real \<times> Minesweeper" where
  "next_rng s = (rng s (calls s), s\<lparr>calls := Suc (calls s)\<rparr>)"

subsection \<open>generateEmptyMatrix\<close>

text \<open>
  \<^verbatim>\<open>new Array(n)\<close> throws a RangeError unless \<open>0 \<le> n < 2^32\<close>; \<^verbatim>\<open>fill\<close> then sets every
  element.
\<close>

definition new_filled_array :: "int \<Rightarrow> 'a \<Rightarrow> error + 'a list" where
  "new_filled_array n v =
     (if n < 0 \<or> 4294967295 < n then Inl RangeError else Inr (replicate (nat n) v))"

function generateEmptyMatrix_loop :: "int \<Rightarrow> Minesweeper \<Rightarrow> (error + unit) \<times> Minesweeper" where
  "generateEmptyMatrix_loop i s =
     (if i < rows s then
        (case new_filled_array (columns s) (numbers (types s) ! 0) of
           Inl e \<Rightarrow> (Inl e, s)
         | Inr arr \<Rightarrow> generateEmptyMatrix_loop (i + 1) (s\<lparr>matrix := matrix s @ [arr]\<rparr>))
      else (Inr (), s))"
  by pat_completeness auto
termination generateEmptyMatrix_loop
  by (relation "measure (\<lambda>(i, s). nat (rows s - i))") auto

definition generateEmptyMatrix :: "Minesweeper \<Rightarrow> (error + unit) \<times> Minesweeper" where
  "generateEmptyMatrix s = generateEmptyMatrix_loop 0 s"

subsection \<open>plantMines\<close>

text \<open>
  One pass through the loop body: two draws, the read \<^verbatim>\<open>this.matrix[x][y]\<close> (a TypeError
  when row \<open>x\<close> does not exist) and either a collision (\<open>False\<close>: the source takes the
  count back with \<^verbatim>\<open>i--\<close>) or the write of the mine (\<open>True\<close>).
\<close>

definition plantMines_body :: "Minesweeper \<Rightarrow> (error + bool) \<times> Minesweeper" where
  "plantMines_body s =
     (let (r1, s1) = next_rng s;
          x = \<lfloor>double_product r1 (real_of_int (rows s1))\<rfloor>;
          (r2, s2) = next_rng s1;
          y = \<lfloor>double_product r2 (real_of_int (columns s2))\<rfloor>
      in case at_index (matrix s2) x of
           None \<Rightarrow> (Inl TypeError, s2)
         | Some row \<Rightarrow>
             if at_index row y = Some (mine (types s2)) then (Inr False, s2)
             else if 0 \<le> y \<and> y < int (length row) then
               (Inr True, s2\<lparr>matrix := (matrix s2)[nat x := row[nat y := mine (types s2)]]\<rparr>)
             else (Inl SparseWrite, s2))"

text \<open>
  The loop may run forever (every draw can hit a mine again), so it is a partial
  function: \<open>None\<close> is the run that never returns.
\<close>

partial_function (option) plantMines_loop ::
  "int \<Rightarrow> Minesweeper \<Rightarrow> ((error + unit) \<times> Minesweeper) option" where
  "plantMines_loop i s =
     (if i < mines s then
        (case plantMines_body s of
           (Inl e, s') \<Rightarrow> Some (Inl e, s')
         | (Inr planted, s') \<Rightarrow> plantMines_loop ((if planted then i else i - 1) + 1) s')
      else Some (Inr (), s))"

declare plantMines_loop.simps [code]

definition plantMines :: "Minesweeper \<Rightarrow> ((error + unit) \<times> Minesweeper) option" where
  "plantMines s = plantMines_loop 0 s"

subsection \<open>getNumberOfMines and populate\<close>

text \<open>
  One summand \<^verbatim>\<open>+(guard && this.matrix[a][b] === this.types.mine)\<close>: the read happens only
  when the guard holds, and throws when row \<open>a\<close> does not exist; a column outside the row
  reads \<^verbatim>\<open>undefined\<close>, which is no mine.
\<close>

definition mine_term :: "Minesweeper \<Rightarrow> bool \<Rightarrow> int \<Rightarrow> int \<Rightarrow> error + nat" where
  "mine_term s guard a b =
     (if guard then
        (case at_index (matrix s) a of
           None \<Rightarrow> Inl TypeError
         | Some row \<Rightarrow> Inr (if at_index row b = Some (mine (types s)) then 1 else 0))
      else Inr 0)"

text \<open>The statements \<^verbatim>\<open>counter += ...\<close> in sequence; the first exception ends them.\<close>

fun add_terms :: "nat \<Rightarrow> (error + nat) list \<Rightarrow> error + nat" where
  "add_terms counter [] = Inr counter"
| "add_terms counter (Inl e # ts) = Inl e"
| "add_terms counter (Inr n # ts) = add_terms (counter + n) ts"

definition getNumberOfMines :: "Minesweeper \<Rightarrow> int \<Rightarrow> int \<Rightarrow> (error + string) \<times> Minesweeper" where
  "getNumberOfMines s x y =
     (case at_index (matrix s) x of
        None \<Rightarrow> (Inl TypeError, s)
      | Some row \<Rightarrow>
          if at_index row y = Some (mine (types s)) then (Inr (mine (types s)), s)
          else
            (let s' = s\<lparr>safeCells := safeCells s @ [(x, y)]\<rparr>;
                 hasLeft = y > 0;
                 hasRight = y < columns s' - 1;
                 hasTop = x > 0;
                 hasBottom = x < rows s' - 1
             in case add_terms 0
                  [mine_term s' (hasTop \<and> hasLeft) (x - 1) (y - 1),
                   mine_term s' hasTop (x - 1) y,
                   mine_term s' (hasTop \<and> hasRight) (x - 1) (y + 1),
                   mine_term s' hasLeft x (y - 1),
                   mine_term s' hasRight x (y + 1),
                   mine_term s' (hasBottom \<and> hasLeft) (x + 1) (y - 1),
                   mine_term s' hasBottom (x + 1) y,
                   mine_term s' (hasBottom \<and> hasRight) (x + 1) (y + 1)] of
                  Inl e \<Rightarrow> (Inl e, s')
                | Inr counter \<Rightarrow> (Inr (numbers (types s') ! counter), s')))"

text \<open>
  \<^verbatim>\<open>row.map((col, y) => this.getNumberOfMines(x, y))\<close>, from column \<open>y\<close> on: the callback
  reads the matrix of the instance, which \<^verbatim>\<open>populate\<close> replaces only after both maps are
  done, and appends to \<^verbatim>\<open>safeCells\<close>.
\<close>

fun populate_row ::
  "Minesweeper \<Rightarrow> int \<Rightarrow> int \<Rightarrow> string list \<Rightarrow> (error + string list) \<times> Minesweeper" where
  "populate_row s x y [] = (Inr [], s)"
| "populate_row s x y (col # cols) =
     (case getNumberOfMines s x y of
        (Inl e, s') \<Rightarrow> (Inl e, s')
      | (Inr v, s') \<Rightarrow>
          (case populate_row s' x (y + 1) cols of
             (Inl e, s'') \<Rightarrow> (Inl e, s'')
           | (Inr vs, s'') \<Rightarrow> (Inr (v # vs), s'')))"

fun populate_rows ::
  "Minesweeper \<Rightarrow> int \<Rightarrow> string list list \<Rightarrow> (error + string list list) \<times> Minesweeper" where
  "populate_rows s x [] = (Inr [], s)"
| "populate_rows s x (row # rest) =
     (case populate_row s x 0 row of
        (Inl e, s') \<Rightarrow> (Inl e, s')
      | (Inr r, s') \<Rightarrow>
          (case populate_rows s' (x + 1) rest of
             (Inl e, s'') \<Rightarrow> (Inl e, s'')
           | (Inr rs, s'') \<Rightarrow> (Inr (r # rs), s'')))"

definition populate :: "Minesweeper \<Rightarrow> (error + unit) \<times> Minesweeper" where
  "populate s =
     (case populate_rows s 0 (matrix s) of
        (Inl e, s') \<Rightarrow> (Inl e, s')
      | (Inr m, s') \<Rightarrow> (Inr (), s'\<lparr>matrix := m\<rparr>))"

subsection \<open>revealSurroundings\<close>

text \<open>
  The body of the inner loop at \<open>(i, j)\<close>: \<^verbatim>\<open>isSpoiler(i, j)\<close> throws when the cell does not
  exist; a spoiler is recorded when it is the zero symbol and loses two characters at
  each end.
\<close>

definition reveal_cell ::
  "int \<Rightarrow> int \<Rightarrow> SafeCell list \<Rightarrow> Minesweeper \<Rightarrow> (error + SafeCell list) \<times> Minesweeper" where
  "reveal_cell i j zeroCells s =
     (case at_index (matrix s) i of
        None \<Rightarrow> (Inl TypeError, s)
      | Some row \<Rightarrow>
          (case at_index row j of
             None \<Rightarrow> (Inl TypeError, s)
           | Some cell \<Rightarrow>
               if str_includes cell ''||'' then
                 (Inr (if cell = numbers (types s) ! 0 then zeroCells @ [(i, j)] else zeroCells),
                  s\<lparr>matrix := (matrix s)[nat i := row[nat j := slice cell 2 (- 2)]]\<rparr>)
               else (Inr zeroCells, s)))"

text \<open>The two \<^verbatim>\<open>for\<close> loops, over the columns and the rows still to visit.\<close>

fun reveal_columns ::
  "int \<Rightarrow> int list \<Rightarrow> SafeCell list \<Rightarrow> Minesweeper \<Rightarrow> (error + SafeCell list) \<times> Minesweeper" where
  "reveal_columns i [] zeroCells s = (Inr zeroCells, s)"
| "reveal_columns i (j # js) zeroCells s =
     (case reveal_cell i j zeroCells s of
        (Inl e, s') \<Rightarrow> (Inl e, s')
      | (Inr zeroCells', s') \<Rightarrow> reveal_columns i js zeroCells' s')"

fun reveal_rows ::
  "int list \<Rightarrow> int list \<Rightarrow> SafeCell list \<Rightarrow> Minesweeper \<Rightarrow> (error + SafeCell list) \<times> Minesweeper" where
  "reveal_rows [] js zeroCells s = (Inr zeroCells, s)"
| "reveal_rows (i # is) js zeroCells s =
     (case reveal_columns i js zeroCells s of
        (Inl e, s') \<Rightarrow> (Inl e, s')
      | (Inr zeroCells', s') \<Rightarrow> reveal_rows is js zeroCells' s')"

text \<open>The part of \<^verbatim>\<open>revealSurroundings\<close> before the recursion: bounds and loops.\<close>

definition reveal_around :: "SafeCell \<Rightarrow> Minesweeper \<Rightarrow> (error + SafeCell list) \<times> Minesweeper" where
  "reveal_around c s =
     (let x = fst c;
          y = snd c;
          xLower = max 0 (x - 1);
          yLower = max 0 (y - 1);
          xUpper = min (rows s - 1) (x + 1);
          yUpper = min (columns s - 1) (y + 1)
      in reveal_rows [xLower..xUpper] [yLower..yUpper] [] s)"

text \<open>The sum of the lengths of all symbols of the matrix: what every unmasking lowers.\<close>

definition weight :: "Minesweeper \<Rightarrow> nat" where
  "weight s = sum_list (map (\<lambda>row. sum_list (map length row)) (matrix s))"

text \<open>
  \<^verbatim>\<open>revealSurroundings\<close> calls itself for every zero cell it has just unmasked, one after
  the other on the matrix the call before has left:
  \<^verbatim>\<open>zeroCells.forEach(c => this.revealSurroundings(c, true))\<close>.
\<close>

function revealSurroundings :: "SafeCell \<Rightarrow> bool \<Rightarrow> Minesweeper \<Rightarrow> (error + unit) \<times> Minesweeper"
  and revealSurroundings_forEach :: "SafeCell list \<Rightarrow> Minesweeper \<Rightarrow> (error + unit) \<times> Minesweeper" where
  "revealSurroundings c recurse s =
     (case reveal_around c s of
        (Inl e, s') \<Rightarrow> (Inl e, s')
      | (Inr zeroCells, s') \<Rightarrow>
          if recurse then revealSurroundings_forEach zeroCells s' else (Inr (), s'))"
| "revealSurroundings_forEach [] s = (Inr (), s)"
| "revealSurroundings_forEach (c # cs) s =
     (case revealSurroundings c True s of
        (Inl e, s') \<Rightarrow> (Inl e, s')
      | (Inr u, s') \<Rightarrow> revealSurroundings_forEach cs s')"
  by pat_completeness auto

subsection \<open>revealFirst\<close>

text \<open>
  \<^verbatim>\<open>this.safeCells.filter(c => this.matrix[c.x][c.y] === this.types.numbers[0])\<close>: the
  callback throws on a cell whose row does not exist.
\<close>

fun zero_filter :: "Minesweeper \<Rightarrow> SafeCell list \<Rightarrow> error + SafeCell list" where
  "zero_filter s [] = Inr []"
| "zero_filter s (c # cs) =
     (case at_index (matrix s) (fst c) of
        None \<Rightarrow> Inl TypeError
      | Some row \<Rightarrow>
          (case zero_filter s cs of
             Inl e \<Rightarrow> Inl e
           | Inr zs \<Rightarrow>
               Inr (if at_index row (snd c) = Some (numbers (types s) ! 0) then c # zs else zs)))"

text \<open>
  \<^verbatim>\<open>const cell = this.matrix[x][y]; this.matrix[x][y] = cell.slice(2, -2);\<close> Both the read
  of a missing row and the \<^verbatim>\<open>slice\<close> of \<^verbatim>\<open>undefined\<close> throw.
\<close>

definition unmask :: "Minesweeper \<Rightarrow> int \<Rightarrow> int \<Rightarrow> (error + unit) \<times> Minesweeper" where
  "unmask s x y =
     (case at_index (matrix s) x of
        None \<Rightarrow> (Inl TypeError, s)
      | Some row \<Rightarrow>
          (case at_index row y of
             None \<Rightarrow> (Inl TypeError, s)
           | Some cell \<Rightarrow>
               (Inr (), s\<lparr>matrix := (matrix s)[nat x := row[nat y := slice cell 2 (- 2)]]\<rparr>)))"

text \<open>
  The chosen element is \<^verbatim>\<open>undefined\<close> when the index is outside the list, and reading its
  \<^verbatim>\<open>x\<close> throws.
\<close>

definition revealFirst :: "Minesweeper \<Rightarrow> (error + SafeCell) \<times> Minesweeper" where
  "revealFirst s =
     (if \<not> revealFirstCell s then (Inr (- 1, - 1), s)
      else
        (case zero_filter s (safeCells s) of
           Inl e \<Rightarrow> (Inl e, s)
         | Inr zeroCells \<Rightarrow>
             if zeroFirstCell s \<and> length zeroCells > 0 then
               (let (r, s1) = next_rng s
                in case at_index zeroCells \<lfloor>r * real (length zeroCells)\<rfloor> of
                     None \<Rightarrow> (Inl TypeError, s1)
                   | Some safeCell \<Rightarrow>
                       (case unmask s1 (fst safeCell) (snd safeCell) of
                          (Inl e, s2) \<Rightarrow> (Inl e, s2)
                        | (Inr u, s2) \<Rightarrow>
                            (case revealSurroundings safeCell True s2 of
                               (Inl e, s3) \<Rightarrow> (Inl e, s3)
                             | (Inr u', s3) \<Rightarrow> (Inr safeCell, s3))))
             else
               (let (r, s1) = next_rng s
                in case at_index (safeCells s1) \<lfloor>r * real (length (safeCells s1))\<rfloor> of
                     None \<Rightarrow> (Inl TypeError, s1)
                   | Some safeCell \<Rightarrow>
                       (case unmask s1 (fst safeCell) (snd safeCell) of
                          (Inl e, s2) \<Rightarrow> (Inl e, s2)
                        | (Inr u, s2) \<Rightarrow> (Inr safeCell, s2)))))"

subsection \<open>getTextRepresentation and start\<close>

definition getTextRepresentation :: "Minesweeper \<Rightarrow> string" where
  "getTextRepresentation s =
     (let separator = (if spaces s then '' '' else [])
      in join [CHR 0x0A] (map (\<lambda>r. join separator r) (matrix s)))"

text \<open>The three backticks around the text of return type \<^verbatim>\<open>code\<close>.\<close>

definition fence :: string where
  "fence = [CHR 0x60, CHR 0x60, CHR 0x60]"

text \<open>\<open>None\<close> is the run that never returns (see \<open>plantMines_loop\<close>).\<close>

definition start :: "Minesweeper \<Rightarrow> ((error + returned) \<times> Minesweeper) option" where
  "start s =
     (if double_product (real_of_int (rows s)) (real_of_int (columns s))
           \<le> double_product (real_of_int (mines s)) 2
      then Some (Inr Null, s)
      else
        (case generateEmptyMatrix s of
           (Inl e, s1) \<Rightarrow> Some (Inl e, s1)
         | (Inr u1, s1) \<Rightarrow>
             (case plantMines s1 of
                None \<Rightarrow> None
              | Some (Inl e, s2) \<Rightarrow> Some (Inl e, s2)
              | Some (Inr u2, s2) \<Rightarrow>
                  (case populate s2 of
                     (Inl e, s3) \<Rightarrow> Some (Inl e, s3)
                   | (Inr u3, s3) \<Rightarrow>
                       (case revealFirst s3 of
                          (Inl e, s4) \<Rightarrow> Some (Inl e, s4)
                        | (Inr c, s4) \<Rightarrow>
                            Some (Inr (case returnType s4 of
                                         Emoji \<Rightarrow> Text (getTextRepresentation s4)
                                       | Code \<Rightarrow> Text (fence @ getTextRepresentation s4 @ fence)
                                       | Matrix \<Rightarrow> Grid (matrix s4)), s4))))))"

section \<open>Notions of the specification\<close>

text \<open>A coordinate of the grid: row in \<open>[0, rows)\<close>, column in \<open>[0, columns)\<close>.\<close>

definition in_grid :: "Minesweeper \<Rightarrow> SafeCell \<Rightarrow> bool" where
  "in_grid s c = (0 \<le> fst c \<and> fst c < rows s \<and> 0 \<le> snd c \<and> snd c < columns s)"

text \<open>The symbol at a coordinate, \<open>None\<close> outside the matrix.\<close>

definition symbol_at :: "string list list \<Rightarrow> SafeCell \<Rightarrow> string option" where
  "symbol_at m c = (case at_index m (fst c) of None \<Rightarrow> None | Some row \<Rightarrow> at_index row (snd c))"

text \<open>The matrix is a grid of \<open>rows\<close> rows of \<open>columns\<close> symbols each.\<close>

definition dims :: "Minesweeper \<Rightarrow> bool" where
  "dims s = (int (length (matrix s)) = rows s \<and> (\<forall>row \<in> set (matrix s). int (length row) = columns s))"

definition is_mine :: "Minesweeper \<Rightarrow> SafeCell \<Rightarrow> bool" where
  "is_mine s c = (symbol_at (matrix s) c = Some (mine (types s)))"

text \<open>Two distinct coordinates at Chebyshev distance 1.\<close>

definition adjacent :: "SafeCell \<Rightarrow> SafeCell \<Rightarrow> bool" where
  "adjacent c d = (c \<noteq> d \<and> \<bar>fst c - fst d\<bar> \<le> 1 \<and> \<bar>snd c - snd d\<bar> \<le> 1)"

text \<open>The Moore neighbours of a coordinate, clipped at the border of the grid.\<close>

definition neighbours :: "Minesweeper \<Rightarrow> SafeCell \<Rightarrow> SafeCell set" where
  "neighbours s c = {d. in_grid s d \<and> adjacent c d}"

definition mine_count :: "Minesweeper \<Rightarrow> SafeCell \<Rightarrow> nat" where
  "mine_count s c = card {d \<in> neighbours s c. is_mine s d}"

text \<open>The symbol a coordinate is to hold after the counting.\<close>

definition symbol :: "Minesweeper \<Rightarrow> SafeCell \<Rightarrow> string" where
  "symbol s c = (if is_mine s c then mine (types s) else numbers (types s) ! mine_count s c)"

text \<open>The eight candidate neighbours, in the order \<^verbatim>\<open>getNumberOfMines\<close> looks at them.\<close>

definition eight :: "SafeCell \<Rightarrow> SafeCell list" where
  "eight c = (let x = fst c; y = snd c in
     [(x - 1, y - 1), (x - 1, y), (x - 1, y + 1), (x, y - 1), (x, y + 1),
      (x + 1, y - 1), (x + 1, y), (x + 1, y + 1)])"

text \<open>Row \<open>x\<close> of the grid, as coordinates from column \<open>y\<close> on, \<open>n\<close> of them.\<close>

definition row_cells :: "int \<Rightarrow> int \<Rightarrow> nat \<Rightarrow> SafeCell list" where
  "row_cells x y n = map (\<lambda>k. (x, y + int k)) [0..<n]"

text \<open>The coordinates of \<open>k\<close> rows from row \<open>x\<close> on, row by row.\<close>

definition grid_cells :: "Minesweeper \<Rightarrow> int \<Rightarrow> nat \<Rightarrow> SafeCell list" where
  "grid_cells s x k = concat (map (\<lambda>i. row_cells (x + int i) 0 (nat (columns s))) [0..<k])"

text \<open>The matrix of the symbols, and the safe cells in the order of the scan.\<close>

definition symbol_matrix :: "Minesweeper \<Rightarrow> int \<Rightarrow> nat \<Rightarrow> string list list" where
  "symbol_matrix s x k =
     map (\<lambda>i. map (symbol s) (row_cells (x + int i) 0 (nat (columns s)))) [0..<k]"

definition safe_list :: "Minesweeper \<Rightarrow> SafeCell list \<Rightarrow> SafeCell list" where
  "safe_list s cs = filter (\<lambda>c. \<not> is_mine s c) cs"

text \<open>What a run of the loops of \<^verbatim>\<open>revealSurroundings\<close> has collected, 0 for an exception.\<close>

definition found :: "(error + SafeCell list) \<Rightarrow> nat" where
  "found r = (case r of Inl e \<Rightarrow> 0 | Inr zs \<Rightarrow> length zs)"

text \<open>The matrix with one symbol replaced.\<close>

definition set_cell :: "string list list \<Rightarrow> SafeCell \<Rightarrow> string \<Rightarrow> string list list" where
  "set_cell m c v = m[nat (fst c) := (m ! nat (fst c))[nat (snd c) := v]]"


text \<open>A coordinate of the grid that holds the masked zero.\<close>

definition zero_cell :: "Minesweeper \<Rightarrow> SafeCell \<Rightarrow> bool" where
  "zero_cell s c = (in_grid s c \<and> symbol_at (matrix s) c = Some (numbers (types s) ! 0))"

text \<open>
  The zero region of an origin: the cells reached from it by steps of Chebyshev
  distance 1 from a cell of the region to a zero cell.
\<close>

inductive_set zero_region :: "Minesweeper \<Rightarrow> SafeCell \<Rightarrow> SafeCell set"
  for s :: Minesweeper and origin :: SafeCell where
  origin: "origin \<in> zero_region s origin"
| step: "z \<in> zero_region s origin \<Longrightarrow> adjacent z d \<Longrightarrow> zero_cell s d \<Longrightarrow> d \<in> zero_region s origin"

text \<open>A coordinate of the grid with the coordinates of the grid next to it.\<close>

definition block :: "Minesweeper \<Rightarrow> SafeCell \<Rightarrow> SafeCell set" where
  "block s c = {d. in_grid s d \<and> (d = c \<or> adjacent c d)}"

text \<open>The zero region together with every cell of the grid next to it.\<close>

definition revealed_region :: "Minesweeper \<Rightarrow> SafeCell \<Rightarrow> SafeCell set" where
  "revealed_region s origin = (\<Union>z \<in> zero_region s origin. block s z)"

text \<open>The coordinates whose symbol in \<open>t\<close> is no longer the one of \<open>s\<close>.\<close>

definition changed :: "Minesweeper \<Rightarrow> Minesweeper \<Rightarrow> SafeCell set" where
  "changed s t = {d. symbol_at (matrix t) d \<noteq> symbol_at (matrix s) d}"

text \<open>
  What holds of the instance \<open>t\<close> all through the reveal that started from \<open>s\<close> at the
  origin: only the matrix and the number of calls of the random source differ from \<open>s\<close>,
  the size is the same, and a symbol has either not changed or belongs to the revealed
  region and has lost its mask.
\<close>

definition reveal_inv :: "Minesweeper \<Rightarrow> SafeCell \<Rightarrow> Minesweeper \<Rightarrow> bool" where
  "reveal_inv s origin t =
     ((\<exists>n m. t = s\<lparr>calls := n, matrix := m\<rparr>) \<and>
      rows t = rows s \<and> columns t = columns s \<and> types t = types s \<and> dims t \<and>
      (\<forall>d. symbol_at (matrix t) d = symbol_at (matrix s) d \<or>
           d \<in> revealed_region s origin \<and>
           symbol_at (matrix t) d = map_option (\<lambda>v. slice v 2 (- 2)) (symbol_at (matrix s) d)))"

text \<open>The unmasked cells of the zero region around which a cell is still masked.\<close>

definition pending :: "Minesweeper \<Rightarrow> SafeCell \<Rightarrow> Minesweeper \<Rightarrow> SafeCell set" where
  "pending s origin t = {z \<in> zero_region s origin \<inter> changed s t. \<not> block s z \<subseteq> changed s t}"

text \<open>
  The reveal starts from a grid that \<open>populate\<close> has filled, at a safe cell that holds the
  zero.
\<close>

definition reveal_start :: "Minesweeper \<Rightarrow> Minesweeper \<Rightarrow> SafeCell \<Rightarrow> bool" where
  "reveal_start s0 s origin =
     (dims s0 \<and> populate s0 = (Inr (), s) \<and> \<not> is_mine s0 origin \<and> zero_cell s origin)"

text \<open>The coordinate that pass \<open>k\<close> of the loop of \<^verbatim>\<open>plantMines\<close> draws, counted from now.\<close>

definition draw :: "Minesweeper \<Rightarrow> nat \<Rightarrow> SafeCell" where
  "draw s k = (\<lfloor>double_product (rng s (calls s + 2 * k)) (real_of_int (rows s))\<rfloor>,
               \<lfloor>double_product (rng s (calls s + 2 * k + 1)) (real_of_int (columns s))\<rfloor>)"

text \<open>The coordinates that hold the mine symbol.\<close>

definition mine_set :: "Minesweeper \<Rightarrow> SafeCell set" where
  "mine_set s = {c. is_mine s c}"

text \<open>A field of 2 by 2 with its one mine in the corner, before the counting.\<close>

definition small_opts :: MinesweeperOpts where
  "small_opts = \<lparr> opt_rows = Some 2, opt_columns = Some 2, opt_mines = Some 1, opt_emote = None,
     opt_revealFirstCell = Some True, opt_zeroFirstCell = None, opt_spaces = None,
     opt_rng = Some (\<lambda>n. 1 / 2), opt_returnType = Some Matrix \<rparr>"

definition small_field :: Minesweeper where
  "small_field = (constructor (\<lambda>n. 0) (Some small_opts))
     \<lparr>matrix := [[''|| :boom: ||'', ''|| :zero: ||''], [''|| :zero: ||'', ''|| :zero: ||'']]\<rparr>"



text \<open>Options for 3 by 3 with two mines; the random source draws (0, 0), then (1, 1).\<close>

definition two_mines_opts :: MinesweeperOpts where
  "two_mines_opts = \<lparr> opt_rows = Some 3, opt_columns = Some 3, opt_mines = Some 2,
     opt_emote = None, opt_revealFirstCell = Some True, opt_zeroFirstCell = None,
     opt_spaces = Some False, opt_rng = Some (\<lambda>n. if n < 2 then 0 else 1 / 2),
     opt_returnType = Some Matrix \<rparr>"

text \<open>The same size and mines with a random source that always returns 0.\<close>

definition constant_opts :: MinesweeperOpts where
  "constant_opts = \<lparr> opt_rows = Some 3, opt_columns = Some 3, opt_mines = Some 2,
     opt_emote = None, opt_revealFirstCell = None, opt_zeroFirstCell = None,
     opt_spaces = None, opt_rng = Some (\<lambda>n. 0), opt_returnType = Some Matrix \<rparr>"

text \<open>2 by 2 with one mine, the mine emote being the name of a number.\<close>

definition one_opts :: MinesweeperOpts where
  "one_opts = \<lparr> opt_rows = Some 2, opt_columns = Some 2, opt_mines = Some 1,
     opt_emote = Some ''one'', opt_revealFirstCell = None, opt_zeroFirstCell = None,
     opt_spaces = None, opt_rng = Some (\<lambda>n. 0), opt_returnType = Some Matrix \<rparr>"

text \<open>One row of \<open>2^32\<close> columns.\<close>

definition wide_opts :: MinesweeperOpts where
  "wide_opts = \<lparr> opt_rows = Some 1, opt_columns = Some 4294967296, opt_mines = Some 1,
     opt_emote = None, opt_revealFirstCell = None, opt_zeroFirstCell = None,
     opt_spaces = None, opt_rng = Some (\<lambda>n. 0), opt_returnType = Some Matrix \<rparr>"

text \<open>3 by 3 with five mines: too dense.\<close>

definition dense_opts :: MinesweeperOpts where
  "dense_opts = \<lparr> opt_rows = Some 3, opt_columns = Some 3, opt_mines = Some 5, opt_emote = None,
     opt_revealFirstCell = None, opt_zeroFirstCell = None, opt_spaces = None,
     opt_rng = None, opt_returnType = None \<rparr>"

text \<open>The defaults, with \<open>revealFirstCell\<close> on.\<close>

definition reveal_opts :: MinesweeperOpts where
  "reveal_opts = \<lparr> opt_rows = None, opt_columns = None, opt_mines = None, opt_emote = None,
     opt_revealFirstCell = Some True, opt_zeroFirstCell = None, opt_spaces = None,
     opt_rng = None, opt_returnType = None \<rparr>"

text \<open>2 by 2 with one mine and a given random source.\<close>

definition det_opts :: "(nat \<Rightarrow> real) \<Rightarrow> MinesweeperOpts" where
  "det_opts r = \<lparr> opt_rows = Some 2, opt_columns = Some 2, opt_mines = Some 1, opt_emote = None,
     opt_revealFirstCell = Some True, opt_zeroFirstCell = None, opt_spaces = None,
     opt_rng = Some r, opt_returnType = Some Matrix \<rparr>"

section \<open>Products in double precision\<close>

text \<open>
  Equations that compute \<open>pow2\<close>, \<open>binade\<close> and \<open>double_abs\<close> on a given number, and what
  \<^verbatim>\<open>plantMines\<close> and \<^verbatim>\<open>start\<close> need of the rounding: it is monotone, it leaves the
  integers below \<open>2^53\<close> as they are, and it keeps the product of a double in \<open>[0, 1)\<close> and
  a size below that size.
\<close>

lemma pow2_powr: "pow2 e = 2 powr real_of_int e"
  by (simp add: pow2_def)

lemma pow2_nat: "pow2 (int n) = 2 ^ n"
  by (simp add: pow2_def powr_realpow)

lemma pow2_pos: "0 < pow2 e"
  by (simp add: pow2_powr)

lemma pow2_add: "pow2 (a + b) = pow2 a * pow2 b"
  by (simp add: pow2_powr powr_add)

lemma pow2_code [code]:
  "pow2 e = (if e = 0 then 1 else if e < 0 then 1 / pow2 (- e)
     else if even e then (let h = pow2 (e div 2) in h * h) else 2 * pow2 (e - 1))"
proof -
  have "pow2 e = pow2 (e div 2) * pow2 (e div 2)" if "even e"
    using that pow2_add [of "e div 2" "e div 2"] by (auto elim!: evenE)
  moreover have "pow2 e = 2 * pow2 (e - 1)"
    using pow2_add [of 1 "e - 1"] by (simp add: pow2_powr)
  moreover have "pow2 e = 1 / pow2 (- e)"
    by (simp add: pow2_powr powr_minus field_simps)
  moreover have "pow2 0 = 1" by (simp add: pow2_def)
  ultimately show ?thesis by (auto simp: Let_def)
qed

lemma pow2_mono: "a \<le> b \<Longrightarrow> pow2 a \<le> pow2 b"
  by (simp add: pow2_powr)

lemma binade_bounds:
  assumes "0 < x"
  shows "pow2 (binade x) \<le> x" and "x < pow2 (binade x + 1)"
proof -
  have x: "2 powr log 2 x = x" using assms by simp
  have "real_of_int \<lfloor>log 2 x\<rfloor> \<le> log 2 x" by simp
  then have "2 powr real_of_int \<lfloor>log 2 x\<rfloor> \<le> 2 powr log 2 x" by (intro powr_mono) simp_all
  with x assms show "pow2 (binade x) \<le> x" by (simp add: pow2_powr binade_def)
  have "log 2 x < real_of_int (\<lfloor>log 2 x\<rfloor> + 1)" by linarith
  then have "2 powr log 2 x < 2 powr real_of_int (\<lfloor>log 2 x\<rfloor> + 1)"
    by (intro powr_less_mono) simp_all
  with x assms show "x < pow2 (binade x + 1)" by (simp add: pow2_powr binade_def)
qed

lemma binade_mono: "0 < a \<Longrightarrow> a \<le> b \<Longrightarrow> binade a \<le> binade b"
  by (simp add: binade_def floor_mono)

lemma binade_eq:
  assumes "pow2 e \<le> \<bar>x\<bar>" and "\<bar>x\<bar> < pow2 (e + 1)"
  shows "binade x = e"
proof -
  have x: "0 < \<bar>x\<bar>" using assms(1) pow2_pos [of e] by linarith
  have "real_of_int e \<le> log 2 \<bar>x\<bar>"
    using assms(1) x by (simp add: pow2_powr le_log_iff)
  moreover have "log 2 \<bar>x\<bar> < real_of_int e + 1"
    using assms(2) x by (simp add: pow2_powr log_less_iff add.commute)
  ultimately show ?thesis unfolding binade_def by linarith
qed

lemma binade_code [code]:
  "binade x = (if x = 0 then 0
     else if 1 \<le> \<bar>x\<bar> then bitlen \<lfloor>\<bar>x\<bar>\<rfloor> - 1
     else binade (x * 2) - 1)"
proof -
  consider "x = 0" | "1 \<le> \<bar>x\<bar>" | "x \<noteq> 0" "\<bar>x\<bar> < 1" by linarith
  then show ?thesis
  proof cases
    case 1
    then show ?thesis by (simp add: binade_def log_def)
  next
    case 2
    define n where "n = \<lfloor>\<bar>x\<bar>\<rfloor>"
    have n: "0 < n" using 2 by (simp add: n_def)
    define e where "e = bitlen n - 1"
    have e: "0 \<le> e" using n bitlen_nonneg [of n] by (simp add: e_def bitlen_alt_def)
    have "2 ^ nat e \<le> n" "n < 2 ^ nat (e + 1)"
      using n bitlen_bounds [of n] e by (simp_all add: e_def add.commute)
    then have lo: "pow2 e \<le> real_of_int n" and "real_of_int n + 1 \<le> pow2 (e + 1)"
      using pow2_nat [of "nat e"] pow2_nat [of "nat (e + 1)"] e
      by (simp_all add: of_int_le_numeral_power_cancel_iff numeral_power_le_of_int_cancel_iff)
        (metis add.commute of_int_1 of_int_add of_int_le_numeral_power_cancel_iff zless_imp_add1_zle)
    moreover have "real_of_int n \<le> \<bar>x\<bar>" "\<bar>x\<bar> < real_of_int n + 1"
      by (simp_all add: n_def)
    ultimately have "binade x = e" by (intro binade_eq) linarith+
    with 2 show ?thesis by (simp add: e_def n_def)
  next
    case 3
    then have "0 < \<bar>x\<bar>" by simp
    then have "log 2 (\<bar>x\<bar> * 2) = log 2 \<bar>x\<bar> + 1" by (simp add: log_mult)
    then have "binade (x * 2) = binade x + 1" by (simp add: binade_def abs_mult)
    with 3 show ?thesis by auto
  qed
qed

lemma round_even_int: "round_even (of_int n) = n"
  by (simp add: round_even_def)

lemma round_even_between: "\<lfloor>y\<rfloor> \<le> round_even y \<and> round_even y \<le> \<lceil>y\<rceil>"
  by (auto simp: round_even_def Let_def)

lemma round_even_mono:
  assumes "a \<le> b"
  shows "round_even a \<le> round_even b"
proof (cases "\<lceil>a\<rceil> \<le> \<lfloor>b\<rfloor>")
  case True
  with round_even_between [of a] round_even_between [of b] show ?thesis by linarith
next
  case False
  have "\<lfloor>a\<rfloor> \<le> \<lfloor>b\<rfloor>" using assms by (rule floor_mono)
  moreover have "\<lceil>a\<rceil> \<le> \<lceil>b\<rceil>" using assms by (rule ceiling_mono)
  moreover have "\<lceil>a\<rceil> \<le> \<lfloor>a\<rfloor> + 1" "\<lceil>b\<rceil> \<le> \<lfloor>b\<rfloor> + 1" by linarith+
  ultimately have f: "\<lfloor>b\<rfloor> = \<lfloor>a\<rfloor>" and c: "\<lceil>b\<rceil> = \<lceil>a\<rceil>" and fc: "\<lfloor>a\<rfloor> < \<lceil>a\<rceil>"
    using False by linarith+
  show ?thesis
    using assms fc unfolding round_even_def Let_def f c by auto
qed

lemma round_even_le: "y \<le> of_int n \<Longrightarrow> round_even y \<le> n"
  using round_even_mono [of y "of_int n"] by (simp add: round_even_int)

lemma round_even_ge: "of_int n \<le> y \<Longrightarrow> n \<le> round_even y"
  using round_even_mono [of "of_int n" y] by (simp add: round_even_int)


lemma rounded_upper:
  assumes "0 < x"
  defines "e \<equiv> max (binade x) (- 1022)"
  shows "of_int (round_even (x / pow2 (e - 52))) * pow2 (e - 52) \<le> pow2 (e + 1)"
proof -
  define u where "u = pow2 (e - 52)"
  have u: "0 < u" by (simp add: u_def pow2_pos)
  have up: "pow2 (e + 1) = 2 ^ 53 * u"
    using pow2_add [of 53 "e - 52"] pow2_nat [of 53] by (simp add: u_def add.commute)
  have "x < pow2 (binade x + 1)" using binade_bounds(2) [OF assms(1)] .
  also have "\<dots> \<le> pow2 (e + 1)" by (intro pow2_mono) (simp add: e_def)
  finally have "x < 2 ^ 53 * u" by (simp add: up)
  then have "x / u \<le> real_of_int (2 ^ 53)" using u by (simp add: field_simps)
  then have "round_even (x / u) \<le> 2 ^ 53" by (rule round_even_le)
  then have "real_of_int (round_even (x / u)) \<le> real_of_int (2 ^ 53)"
    by (simp only: of_int_le_iff)
  then have "real_of_int (round_even (x / u)) \<le> 2 ^ 53" by simp
  then have "real_of_int (round_even (x / u)) * u \<le> 2 ^ 53 * u"
    using u by (simp add: mult_right_mono)
  then show ?thesis by (simp add: up u_def)
qed

lemma rounded_lower:
  assumes "0 < x" and "- 1022 \<le> binade x"
  defines "e \<equiv> binade x"
  shows "pow2 e \<le> of_int (round_even (x / pow2 (e - 52))) * pow2 (e - 52)"
proof -
  define u where "u = pow2 (e - 52)"
  have u: "0 < u" by (simp add: u_def pow2_pos)
  have lo: "pow2 e = 2 ^ 52 * u"
    using pow2_add [of 52 "e - 52"] pow2_nat [of 52] by (simp add: u_def add.commute)
  have "pow2 e \<le> x" using binade_bounds(1) [OF assms(1)] by (simp add: e_def)
  then have "real_of_int (2 ^ 52) \<le> x / u" using u by (simp add: lo field_simps)
  then have "2 ^ 52 \<le> round_even (x / u)" by (rule round_even_ge)
  then have "real_of_int (2 ^ 52) \<le> real_of_int (round_even (x / u))"
    by (simp only: of_int_le_iff)
  then have "2 ^ 52 \<le> real_of_int (round_even (x / u))" by simp
  then have "2 ^ 52 * u \<le> real_of_int (round_even (x / u)) * u"
    using u by (simp add: mult_right_mono)
  then show ?thesis by (simp add: lo u_def)
qed

lemma rounded_mono:
  assumes "0 < a" and "a \<le> b"
  defines "ua \<equiv> pow2 (max (binade a) (- 1022) - 52)"
    and "ub \<equiv> pow2 (max (binade b) (- 1022) - 52)"
  shows "of_int (round_even (a / ua)) * ua \<le> of_int (round_even (b / ub)) * ub"
proof -
  define ea where "ea = max (binade a) (- 1022)"
  define eb where "eb = max (binade b) (- 1022)"
  have ua: "ua = pow2 (ea - 52)" and ub: "ub = pow2 (eb - 52)"
    by (simp_all add: ua_def ub_def ea_def eb_def)
  have pb: "0 < ub" by (simp add: ub pow2_pos)
  have b: "0 < b" using assms by simp
  have le: "ea \<le> eb" using binade_mono [OF assms(1,2)] by (simp add: ea_def eb_def)
  show ?thesis
  proof (cases "ea = eb")
    case True
    then have u: "ua = ub" by (simp add: ua ub)
    have "a / ub \<le> b / ub" using assms(2) pb by (simp add: divide_right_mono)
    then have "round_even (a / ub) \<le> round_even (b / ub)" by (rule round_even_mono)
    then have "real_of_int (round_even (a / ub)) * ub \<le> real_of_int (round_even (b / ub)) * ub"
      using pb by (simp add: mult_right_mono)
    then show ?thesis by (simp add: u)
  next
    case False
    with le have lt: "ea < eb" by simp
    then have eb_b: "eb = binade b" and low: "- 1022 \<le> binade b"
      by (simp_all add: ea_def eb_def max_def split: if_splits)
    have "real_of_int (round_even (a / ua)) * ua \<le> pow2 (ea + 1)"
      using rounded_upper [OF assms(1)] by (simp add: ua ea_def)
    also have "\<dots> \<le> pow2 eb" using lt by (intro pow2_mono) simp
    also have "\<dots> \<le> real_of_int (round_even (b / ub)) * ub"
      using rounded_lower [OF b low] by (simp add: ub eb_b)
    finally show ?thesis .
  qed
qed

lemma double_abs_nonneg: "0 \<le> x \<Longrightarrow> 0 \<le> double_abs x"
proof -
  assume x: "0 \<le> x"
  define u where "u = pow2 (max (binade x) (- 1022) - 52)"
  have u: "0 < u" by (simp add: u_def pow2_pos)
  then have "real_of_int 0 \<le> x / u" using x by simp
  then have "0 \<le> round_even (x / u)" by (rule round_even_ge)
  then have "0 \<le> real_of_int (round_even (x / u)) * u" using u by simp
  moreover have "0 \<le> pow2 1024" using pow2_pos [of 1024] by simp
  ultimately show ?thesis by (simp add: double_abs_def Let_def u_def [symmetric])
qed

lemma double_abs_mono:
  assumes "0 \<le> a" and "a \<le> b"
  shows "double_abs a \<le> double_abs b"
proof (cases "a = 0")
  case True
  with assms double_abs_nonneg [of b] show ?thesis by (simp add: double_abs_def)
next
  case False
  with assms have a: "0 < a" and b: "b \<noteq> 0" by simp_all
  from rounded_mono [OF a assms(2)] False b show ?thesis
    by (simp add: double_abs_def Let_def min_le_iff_disj)
qed

lemma double_abs_code [code]:
  "double_abs x =
     (if x = 0 then 0
      else
        (let e = max (binade x) (- 1022); ulp = pow2 (e - 52);
             y = of_int (round_even (x / ulp)) * ulp
         in if e < 1023 then y else min (pow2 1024) y))"
proof (cases "max (binade x) (- 1022) < 1023")
  case False
  then show ?thesis by (simp add: double_abs_def Let_def)
next
  case True
  define e where "e = max (binade x) (- 1022)"
  define u where "u = pow2 (e - 52)"
  have u: "0 < u" by (simp add: u_def pow2_pos)
  have "real_of_int (round_even (x / u)) * u \<le> pow2 1024"
  proof (cases "0 < x")
    case True
    have "real_of_int (round_even (x / u)) * u \<le> pow2 (e + 1)"
      using rounded_upper [OF True] by (simp add: e_def u_def)
    also have "\<dots> \<le> pow2 1024" using \<open>max (binade x) (- 1022) < 1023\<close>
      by (intro pow2_mono) (simp add: e_def)
    finally show ?thesis .
  next
    case False
    then have "x / u \<le> real_of_int 0" using u by (simp add: field_simps)
    then have "round_even (x / u) \<le> 0" by (rule round_even_le)
    then have "real_of_int (round_even (x / u)) * u \<le> 0"
      using u by (simp add: mult_le_0_iff)
    with pow2_pos [of 1024] show ?thesis by linarith
  qed
  with True show ?thesis by (simp add: double_abs_def Let_def e_def u_def)
qed

lemma to_double_mono:
  assumes "a \<le> b"
  shows "to_double a \<le> to_double b"
proof -
  consider "0 \<le> a" | "a < 0" "0 \<le> b" | "b < 0" by linarith
  then show ?thesis
  proof cases
    case 1
    with assms double_abs_mono [of a b] show ?thesis by (simp add: to_double_def)
  next
    case 2
    with double_abs_nonneg [of "- a"] double_abs_nonneg [of b] show ?thesis
      by (simp add: to_double_def)
  next
    case 3
    with assms double_abs_mono [of "- b" "- a"] show ?thesis by (simp add: to_double_def)
  qed
qed

lemma double_product_mono: "a * b \<le> c * d \<Longrightarrow> double_product a b \<le> double_product c d"
  unfolding double_product_def by (rule to_double_mono)

lemma double_product_zero: "double_product 0 b = 0"
  by (simp add: double_product_def to_double_def double_abs_def)

text \<open>
  Two products that the rounding changes: the double next below one third, taken three
  times, is 1; and \<open>(2^52 + 3) * 3\<close>, an odd number above \<open>2^53\<close>, is rounded to the even
  number below it.
\<close>

lemma double_product_third: "double_product (6004799503160661 / 18014398509481984) 3 = 1"
  by code_simp

lemma double_product_odd: "double_product 4503599627370499 3 = 13510798882111496"
  by code_simp

lemma pow2_diff: "pow2 (a - b) = pow2 a / pow2 b"
  by (simp add: pow2_powr powr_diff)

lemma pow2_less: "a < b \<Longrightarrow> pow2 a < pow2 b"
  by (simp add: pow2_powr)

lemma pow2_le_iff: "pow2 a \<le> pow2 b \<longleftrightarrow> a \<le> b"
  by (simp add: pow2_powr)

lemma pow2_less_iff: "pow2 a < pow2 b \<longleftrightarrow> a < b"
  by (simp add: pow2_powr)

lemma pow2_0: "pow2 0 = 1"
  by (simp add: pow2_def)

lemma round_even_below_half:
  assumes "y < of_int n - 1 / 2"
  shows "round_even y \<le> n - 1"
proof (cases "\<lceil>y\<rceil> \<le> n - 1")
  case True
  with round_even_between [of y] show ?thesis by linarith
next
  case False
  have yn: "y < real_of_int n" using assms by linarith
  then have "\<lceil>y\<rceil> \<le> n" by (simp add: ceiling_le_iff)
  with False have c: "\<lceil>y\<rceil> = n" by simp
  from yn have "\<lfloor>y\<rfloor> < n" by (simp add: floor_less_iff)
  then have "\<lfloor>y\<rfloor> \<le> n - 1" by simp
  moreover have "\<lceil>y\<rceil> \<le> \<lfloor>y\<rfloor> + 1" by linarith
  ultimately have f: "\<lfloor>y\<rfloor> = n - 1" using c by linarith
  show ?thesis using assms unfolding round_even_def Let_def c f by simp
qed

text \<open>A number \<open>k * 2^j\<close> with \<open>k\<close> below \<open>2^53\<close> and \<open>j\<close> from -1074 is a double.\<close>

lemma double_abs_exact:
  assumes "0 < k" and "k < 2 ^ 53" and "- 1074 \<le> j"
    and "real_of_int k * pow2 j \<le> pow2 1024"
  shows "double_abs (real_of_int k * pow2 j) = real_of_int k * pow2 j"
proof -
  define x where "x = real_of_int k * pow2 j"
  define e where "e = max (binade x) (- 1022)"
  define u where "u = pow2 (e - 52)"
  have x: "0 < x" using assms(1) pow2_pos [of j] by (simp add: x_def)
  have u: "0 < u" by (simp add: u_def pow2_pos)
  have "real_of_int k < 2 ^ 53" using assms(2) by (metis of_int_less_numeral_power_cancel_iff)
  then have "x < 2 ^ 53 * pow2 j" using pow2_pos [of j] by (simp add: x_def)
  also have "\<dots> = pow2 (53 + j)" using pow2_add [of 53 j] pow2_nat [of 53] by simp
  finally have "pow2 (binade x) < pow2 (53 + j)" using binade_bounds(1) [OF x] by linarith
  then have "binade x < 53 + j" by (simp add: pow2_less_iff)
  with assms(3) have t: "0 \<le> j - e + 52" by (simp add: e_def)
  have "x / u = real_of_int k * (pow2 j / pow2 (e - 52))" by (simp add: x_def u_def)
  also have "pow2 j / pow2 (e - 52) = pow2 (int (nat (j - e + 52)))"
    using t pow2_diff [of j "e - 52"] by (simp add: algebra_simps)
  also have "\<dots> = 2 ^ nat (j - e + 52)" by (rule pow2_nat)
  finally have "x / u = real_of_int (k * 2 ^ nat (j - e + 52))" by simp
  then have "round_even (x / u) = k * 2 ^ nat (j - e + 52)" by (simp only: round_even_int)
  then have "real_of_int (round_even (x / u)) = x / u"
    using \<open>x / u = real_of_int (k * 2 ^ nat (j - e + 52))\<close> by simp
  then have "real_of_int (round_even (x / u)) * u = x" using u by simp
  with x assms(4) show ?thesis
    by (simp add: double_abs_def Let_def e_def [symmetric] u_def [symmetric] x_def [symmetric])
qed

lemma to_double_nat:
  assumes "0 \<le> n" and "n < 2 ^ 53"
  shows "double_abs (real_of_int n) = real_of_int n"
proof (cases "n = 0")
  case True
  then show ?thesis by (simp add: double_abs_def)
next
  case False
  with assms have n: "0 < n" by simp
  have "real_of_int n < 2 ^ 53" using assms(2) by (metis of_int_less_numeral_power_cancel_iff)
  also have "(2::real) ^ 53 \<le> 2 ^ 1024" by (rule power_increasing) simp_all
  finally have "real_of_int n * pow2 0 \<le> pow2 1024" using pow2_nat [of 1024] by (simp add: pow2_0)
  from double_abs_exact [OF n assms(2) _ this] show ?thesis by (simp add: pow2_0)
qed

text \<open>The integers of magnitude below \<open>2^53\<close> are doubles.\<close>

lemma to_double_int:
  assumes "\<bar>n\<bar> < 2 ^ 53"
  shows "to_double (real_of_int n) = real_of_int n"
proof (cases "n < 0")
  case True
  with assms to_double_nat [of "- n"] show ?thesis by (simp add: to_double_def)
next
  case False
  with assms to_double_nat [of n] show ?thesis by (simp add: to_double_def)
qed

text \<open>The doubles below 1 end at \<open>1 - 2^(-53)\<close>.\<close>

lemma double_below_one:
  assumes "to_double r = r" and "0 \<le> r" and "r < 1"
  shows "r \<le> 1 - 1 / 2 ^ 53"
proof (cases "r = 0")
  case True
  then show ?thesis by simp
next
  case False
  with assms(2) have r: "0 < r" by simp
  define e where "e = max (binade r) (- 1022)"
  define u where "u = pow2 (e - 52)"
  define m where "m = round_even (r / u)"
  have u: "0 < u" by (simp add: u_def pow2_pos)
  have big: "1 < pow2 1024" using pow2_less [of 0 1024] by (simp add: pow2_0)
  have "r = min (pow2 1024) (real_of_int m * u)"
    using assms(1) r by (simp add: to_double_def double_abs_def Let_def e_def u_def m_def)
  with assms(3) big have rm: "r = real_of_int m * u" by (simp add: min_def split: if_splits)
  have "pow2 (binade r) < pow2 0" using binade_bounds(1) [OF r] assms(3) by (simp add: pow2_0)
  then have "binade r < 0" by (simp add: pow2_less_iff)
  then have e: "e \<le> - 1" by (simp add: e_def)
  show ?thesis
  proof (cases "e = - 1")
    case True
    have "pow2 (- 53) * 2 ^ 53 = 1" using pow2_add [of "- 53" 53] pow2_nat [of 53] by (simp add: pow2_0)
    then have u53: "u = 1 / 2 ^ 53" by (simp add: u_def True field_simps)
    from rm assms(3) have "real_of_int m < 2 ^ 53" by (simp add: u53)
    then have "m < 2 ^ 53" by (metis of_int_less_numeral_power_cancel_iff)
    then have "m \<le> 2 ^ 53 - 1" by simp
    then have "real_of_int m \<le> real_of_int (2 ^ 53 - 1)" by (simp only: of_int_le_iff)
    then show ?thesis by (simp add: rm u53 field_simps)
  next
    case False
    with e have e2: "e + 1 \<le> - 1" by simp
    have "real_of_int m * u \<le> pow2 (e + 1)"
      using rounded_upper [OF r] by (simp add: m_def u_def e_def)
    then have "r \<le> pow2 (e + 1)" by (simp only: rm)
    also have "\<dots> \<le> pow2 (- 1)" using e2 by (rule pow2_mono)
    also have "pow2 (- 1) = 1 / 2" using pow2_add [of "- 1" 1] pow2_nat [of 1] by (simp add: pow2_0)
    finally show ?thesis by simp
  qed
qed

text \<open>
  A positive integer \<open>h\<close> up to \<open>2^53\<close>, scaled by the last double below 1, rounds to a
  double below \<open>h\<close>.
\<close>

lemma scaled_below:
  assumes "1 \<le> h" and "h \<le> 2 ^ 53"
  shows "to_double (real_of_int h * (1 - 1 / 2 ^ 53)) < real_of_int h"
proof -
  define B where "B = real_of_int h * (1 - 1 / 2 ^ 53)"
  define E where "E = binade (real_of_int h)"
  have h: "0 < real_of_int h" using assms(1) by simp
  have lo: "pow2 E \<le> real_of_int h" and hi: "real_of_int h < pow2 (E + 1)"
    using binade_bounds [OF h] by (simp_all add: E_def)
  have h53: "real_of_int h \<le> 2 ^ 53" using assms(2) by (metis of_int_le_numeral_power_cancel_iff)
  have "pow2 0 \<le> real_of_int h" using assms(1) by (simp add: pow2_0)
  then have "pow2 0 < pow2 (E + 1)" using hi by linarith
  then have E0: "0 \<le> E" by (simp add: pow2_less_iff)
  have "pow2 E \<le> pow2 53" using lo h53 pow2_nat [of 53] by simp
  then have E53: "E \<le> 53" by (simp add: pow2_le_iff)
  have B: "0 < B" "B < real_of_int h" using h by (simp_all add: B_def field_simps)
  have "double_abs B < real_of_int h"
  proof (cases "real_of_int h = pow2 E")
    case True
    have "pow2 (E - 53) * 2 ^ 53 = pow2 E"
      using pow2_add [of "E - 53" 53] pow2_nat [of 53] by simp
    then have eq: "B = real_of_int (2 ^ 53 - 1) * pow2 (E - 53)"
      by (simp add: B_def True field_simps)
    have "B \<le> pow2 1024"
      using B(2) True pow2_mono [of E 1024] E53 by simp
    then have "double_abs (real_of_int (2 ^ 53 - 1) * pow2 (E - 53)) =
        real_of_int (2 ^ 53 - 1) * pow2 (E - 53)"
      using E0 unfolding eq by (intro double_abs_exact) simp_all
    with B(2) show ?thesis by (simp add: eq)
  next
    case False
    with lo have gt: "pow2 E < real_of_int h" by simp
    have pE: "pow2 E = real_of_int (2 ^ nat E)" using pow2_nat [of "nat E"] E0 by simp
    with gt have "2 ^ nat E < h" by (simp only: of_int_less_iff)
    then have h1: "2 ^ nat E + 1 \<le> h" by simp
    have E52: "E \<le> 52"
    proof (rule ccontr)
      assume "\<not> E \<le> 52"
      with E53 have "E = 53" by simp
      with h1 assms(2) show False by simp
    qed
    have "real_of_int (2 ^ nat E + 1) \<le> real_of_int h" using h1 by (simp only: of_int_le_iff)
    then have "pow2 E + 1 \<le> real_of_int h" by (simp add: pE)
    moreover have "real_of_int h / 2 ^ 53 \<le> 1" using h53 by simp
    ultimately have "pow2 E \<le> B" by (simp add: B_def field_simps)
    moreover have "B < pow2 (E + 1)" using B(2) hi by linarith
    ultimately have bB: "binade B = E" using B(1) by (intro binade_eq) simp_all
    define u where "u = pow2 (E - 52)"
    define M where "M = h * 2 ^ nat (52 - E)"
    have u: "0 < u" by (simp add: u_def pow2_pos)
    have "2 ^ nat (52 - E) = pow2 (52 - E)" using pow2_nat [of "nat (52 - E)"] E52 by simp
    moreover have "pow2 (52 - E) * pow2 (E - 52) = pow2 0"
      unfolding pow2_add [symmetric] by simp
    ultimately have iu: "2 ^ nat (52 - E) * u = 1" by (simp add: u_def pow2_0)
    then have Mu: "real_of_int M * u = real_of_int h" by (simp add: M_def)
    have "pow2 (E + 1) = 2 ^ 53 * u"
      using pow2_add [of 53 "E - 52"] pow2_nat [of 53] by (simp add: u_def add.commute)
    then have half: "2 ^ 53 * u < 2 * real_of_int h"
      using gt pow2_add [of 1 E] pow2_nat [of 1] by (simp add: add.commute)
    have "B / u = real_of_int M - real_of_int h / (2 ^ 53 * u)"
      using u Mu by (simp add: B_def field_simps)
    moreover have "1 / 2 < real_of_int h / (2 ^ 53 * u)"
      using half u by (simp add: field_simps)
    ultimately have "B / u < real_of_int M - 1 / 2" by linarith
    then have "round_even (B / u) \<le> M - 1" by (rule round_even_below_half)
    then have "real_of_int (round_even (B / u)) \<le> real_of_int (M - 1)"
      by (simp only: of_int_le_iff)
    then have "real_of_int (round_even (B / u)) * u \<le> real_of_int (M - 1) * u"
      using u by (simp add: mult_right_mono)
    also have "\<dots> = real_of_int h - u" using Mu by (simp add: algebra_simps)
    also have "\<dots> < real_of_int h" using u by simp
    finally have "real_of_int (round_even (B / u)) * u < real_of_int h" .
    moreover have "max E (- 1022) = E" using E0 by simp
    ultimately show ?thesis
      using B(1) by (simp add: double_abs_def Let_def bB u_def min_less_iff_disj)
  qed
  moreover have "to_double B = double_abs B" using B(1) by (simp add: to_double_def)
  ultimately show ?thesis unfolding B_def by simp
qed

text \<open>
  \<^verbatim>\<open>Math.floor(r * h)\<close> for a double \<open>r\<close> in \<open>[0, 1)\<close> and a size \<open>h\<close> up to \<open>2^53\<close> is an
  index below \<open>h\<close>.
\<close>

lemma double_product_index:
  assumes "to_double r = r" and "0 \<le> r" and "r < 1" and "0 < h" and "h \<le> 2 ^ 53"
  shows "0 \<le> \<lfloor>double_product r (real_of_int h)\<rfloor>"
    and "\<lfloor>double_product r (real_of_int h)\<rfloor> < h"
proof -
  have "0 \<le> r * real_of_int h" using assms(2,4) by simp
  then have "0 \<le> double_abs (r * real_of_int h)" by (rule double_abs_nonneg)
  then show "0 \<le> \<lfloor>double_product r (real_of_int h)\<rfloor>"
    using \<open>0 \<le> r * real_of_int h\<close> by (simp add: double_product_def to_double_def)
  have "r \<le> 1 - 1 / 2 ^ 53" using assms(1-3) by (rule double_below_one)
  then have "r * real_of_int h \<le> (1 - 1 / 2 ^ 53) * real_of_int h"
    using assms(4) by (intro mult_right_mono) simp_all
  then have "to_double (r * real_of_int h) \<le> to_double (real_of_int h * (1 - 1 / 2 ^ 53))"
    by (intro to_double_mono) (simp add: mult.commute)
  also have "\<dots> < real_of_int h" using assms(4,5) by (intro scaled_below) simp_all
  finally show "\<lfloor>double_product r (real_of_int h)\<rfloor> < h"
    by (simp add: double_product_def floor_less_iff)
qed

text \<open>
  The density test of \<^verbatim>\<open>start\<close> on sizes whose product is below \<open>2^53\<close>: the rounded
  products compare as the exact ones do.
\<close>

lemma density_test:
  assumes "0 \<le> a * b" and "a * b < 2 ^ 53"
  shows "double_product (real_of_int a) (real_of_int b) \<le> double_product (real_of_int m) 2
     \<longleftrightarrow> a * b \<le> m * 2"
proof -
  define p where "p = a * b"
  define q where "q = m * 2"
  have dp: "double_product (real_of_int a) (real_of_int b) = to_double (real_of_int p)"
    "double_product (real_of_int m) 2 = to_double (real_of_int q)"
    by (simp_all add: double_product_def p_def q_def)
  have p: "to_double (real_of_int p) = real_of_int p"
    using assms by (intro to_double_int) (simp add: p_def)
  have "to_double (real_of_int p) \<le> to_double (real_of_int q) \<longleftrightarrow> p \<le> q"
  proof
    assume "p \<le> q"
    then have "real_of_int p \<le> real_of_int q" by (simp only: of_int_le_iff)
    then show "to_double (real_of_int p) \<le> to_double (real_of_int q)" by (rule to_double_mono)
  next
    assume le: "to_double (real_of_int p) \<le> to_double (real_of_int q)"
    show "p \<le> q"
    proof (rule ccontr)
      assume "\<not> p \<le> q"
      then have "q \<le> p - 1" by simp
      then have "real_of_int q \<le> real_of_int (p - 1)" by (simp only: of_int_le_iff)
      then have "to_double (real_of_int q) \<le> to_double (real_of_int (p - 1))"
        by (rule to_double_mono)
      also have "\<dots> = real_of_int (p - 1)"
        using assms by (intro to_double_int) (simp add: p_def)
      also have "\<dots> < real_of_int p" by simp
      finally show False using le p by simp
    qed
  qed
  then show ?thesis unfolding dp by (simp add: p_def q_def)
qed

section \<open>Termination of revealSurroundings\<close>

text \<open>
  A spoiler holds at least the two characters of \<^verbatim>\<open>"||"\<close>, so unmasking shortens it; and
  each recorded zero cell has been unmasked. The weight of the matrix therefore pays for
  every recursive call.
\<close>

lemma str_includes_length: "str_includes cell t \<Longrightarrow> length t \<le> length cell"
proof (induction cell)
  case Nil
  then show ?case by simp
next
  case (Cons a cell)
  show ?case
  proof (cases "take (length t) (a # cell) = t")
    case True
    then have "length (take (length t) (a # cell)) = length t" by simp
    then show ?thesis by (simp del: take_Suc_Cons)
  next
    case False
    with Cons show ?thesis by simp
  qed
qed

lemma slice_shorter:
  assumes "str_includes cell ''||''"
  shows "length (slice cell 2 (- 2)) < length cell"
proof -
  have "2 \<le> length cell" using str_includes_length [OF assms] by simp
  then show ?thesis by (simp add: slice_def Let_def)
qed

lemma slice_length_le: "length (slice cell 2 (- 2)) \<le> length cell"
  by (simp add: slice_def Let_def)

lemma at_index_Some: "at_index xs i = Some v \<longleftrightarrow> 0 \<le> i \<and> nat i < length xs \<and> xs ! nat i = v"
  by (auto simp: at_index_def)

lemma sum_list_update_nat:
  fixes xs :: "nat list"
  shows "k < length xs \<Longrightarrow> sum_list (xs[k := v]) + xs ! k = sum_list xs + v"
  by (induction xs arbitrary: k) (auto split: nat.splits)

lemma weight_update:
  assumes "at_index (matrix s) i = Some row" "at_index row j = Some cell"
  shows "weight (s\<lparr>matrix := (matrix s)[nat i := row[nat j := v]]\<rparr>) + length cell = weight s + length v"
proof -
  from assms have i: "nat i < length (matrix s)" "matrix s ! nat i = row"
    and j: "nat j < length row" "row ! nat j = cell" by (auto simp: at_index_Some)
  have "sum_list (map length (row[nat j := v])) + length cell = sum_list (map length row) + length v"
    using sum_list_update_nat [of "nat j" "map length row" "length v"] j by (simp add: map_update)
  moreover have "sum_list ((map (\<lambda>row. sum_list (map length row)) (matrix s))[nat i := sum_list (map length (row[nat j := v]))])
     + sum_list (map length row) = sum_list (map (\<lambda>row. sum_list (map length row)) (matrix s)) + sum_list (map length (row[nat j := v]))"
    using sum_list_update_nat [of "nat i" "map (\<lambda>row. sum_list (map length row)) (matrix s)"] i by simp
  ultimately show ?thesis by (simp add: weight_def map_update)
qed

lemma reveal_cell_weight:
  "reveal_cell i j zs s = (r, s') \<Longrightarrow> weight s' + found r \<le> weight s + length zs"
proof -
  have "weight (s\<lparr>matrix := (matrix s)[nat i := row[nat j := slice cell 2 (- 2)]]\<rparr>) < weight s"
    if "at_index (matrix s) i = Some row" "at_index row j = Some cell" "str_includes cell ''||''"
    for row cell
    using weight_update [OF that(1,2), of "slice cell 2 (- 2)"] slice_shorter [OF that(3)] by linarith
  then show "reveal_cell i j zs s = (r, s') \<Longrightarrow> weight s' + found r \<le> weight s + length zs"
    by (fastforce simp: reveal_cell_def found_def split: option.splits if_splits)
qed

lemma reveal_columns_weight:
  "reveal_columns i js zs s = (r, s') \<Longrightarrow> weight s' + found r \<le> weight s + length zs"
proof (induction js arbitrary: zs s)
  case Nil
  then show ?case by (auto simp: found_def)
next
  case (Cons j js)
  obtain r1 s1 where c: "reveal_cell i j zs s = (r1, s1)" by (cases "reveal_cell i j zs s")
  note w = reveal_cell_weight [OF c]
  show ?case
  proof (cases r1)
    case (Inl e)
    with Cons.prems c w show ?thesis by (auto simp: found_def)
  next
    case (Inr zs1)
    with Cons.prems c have "reveal_columns i js zs1 s1 = (r, s')" by simp
    from Cons.IH [OF this] w Inr show ?thesis by (simp add: found_def)
  qed
qed

lemma reveal_rows_weight:
  "reveal_rows is js zs s = (r, s') \<Longrightarrow> weight s' + found r \<le> weight s + length zs"
proof (induction "is" arbitrary: zs s)
  case Nil
  then show ?case by (auto simp: found_def)
next
  case (Cons i "is")
  obtain r1 s1 where c: "reveal_columns i js zs s = (r1, s1)" by (cases "reveal_columns i js zs s")
  note w = reveal_columns_weight [OF c]
  show ?case
  proof (cases r1)
    case (Inl e)
    with Cons.prems c w show ?thesis by (auto simp: found_def)
  next
    case (Inr zs1)
    with Cons.prems c have "reveal_rows is js zs1 s1 = (r, s')" by simp
    from Cons.IH [OF this] w Inr show ?thesis by (simp add: found_def)
  qed
qed

lemma reveal_around_weight:
  "reveal_around c s = (r, s') \<Longrightarrow> weight s' + found r \<le> weight s"
  using reveal_rows_weight [of _ _ "[]" s r s'] by (simp add: reveal_around_def Let_def)

lemma revealSurroundings_weight_dom:
  "revealSurroundings_revealSurroundings_forEach_dom (Inl (c, recurse, s)) \<Longrightarrow>
     weight (snd (revealSurroundings c recurse s)) \<le> weight s"
  "revealSurroundings_revealSurroundings_forEach_dom (Inr (cs, s)) \<Longrightarrow>
     weight (snd (revealSurroundings_forEach cs s)) \<le> weight s"
proof (induction c recurse s and cs s rule: revealSurroundings_revealSurroundings_forEach.pinduct)
  case (1 c recurse s)
  obtain r1 s1 where a: "reveal_around c s = (r1, s1)" by (cases "reveal_around c s")
  note w = reveal_around_weight [OF a]
  show ?case
  proof (cases r1)
    case (Inl e)
    with 1(1) a w show ?thesis by (simp add: revealSurroundings.psimps)
  next
    case (Inr zs)
    show ?thesis
    proof (cases recurse)
      case True
      from 1(2) [OF a [symmetric] Inr True] 1(1) a w Inr True show ?thesis
        by (simp add: revealSurroundings.psimps)
    next
      case False
      with 1(1) a w Inr show ?thesis by (simp add: revealSurroundings.psimps)
    qed
  qed
next
  case (2 s)
  then show ?case by (simp add: revealSurroundings_forEach.psimps)
next
  case (3 c cs s)
  then show ?case
    by (auto simp: revealSurroundings_forEach.psimps split: prod.splits sum.splits)
qed

termination revealSurroundings
proof (relation "measure (\<lambda>a. case a of Inl (c, recurse, s) \<Rightarrow> 2 * weight s + 1
                                     | Inr (cs, s) \<Rightarrow> 2 * weight s + 2 * length cs)")
  show "wf (measure (\<lambda>a. case a of Inl (c, recurse, s) \<Rightarrow> 2 * weight s + 1
                                     | Inr (cs, s) \<Rightarrow> 2 * weight s + 2 * length cs))"
    by simp
next
  fix c :: SafeCell and recurse :: bool and s s' :: Minesweeper
    and x1 :: "error + SafeCell list" and zs :: "SafeCell list"
  assume "(x1, s') = reveal_around c s" "x1 = Inr zs" "recurse"
  then have "reveal_around c s = (Inr zs, s')" by simp
  from reveal_around_weight [OF this]
  show "(Inr (zs, s'), Inl (c, recurse, s)) \<in> measure (\<lambda>a. case a of Inl (c, recurse, s) \<Rightarrow> 2 * weight s + 1
                                     | Inr (cs, s) \<Rightarrow> 2 * weight s + 2 * length cs)"
    by (simp add: found_def)
next
  fix c :: SafeCell and cs :: "SafeCell list" and s :: Minesweeper
  show "(Inl (c, True, s), Inr (c # cs, s)) \<in> measure (\<lambda>a. case a of Inl (c, recurse, s) \<Rightarrow> 2 * weight s + 1
                                     | Inr (cs, s) \<Rightarrow> 2 * weight s + 2 * length cs)"
    by simp
next
  fix c :: SafeCell and cs :: "SafeCell list" and s s' :: Minesweeper
    and x1 :: "error + unit" and u :: unit
  assume "(x1, s') = revealSurroundings c True s" "x1 = Inr u"
    "revealSurroundings_revealSurroundings_forEach_dom (Inl (c, True, s))"
  with revealSurroundings_weight_dom(1) [of c True s]
  show "(Inr (cs, s'), Inr (c # cs, s)) \<in> measure (\<lambda>a. case a of Inl (c, recurse, s) \<Rightarrow> 2 * weight s + 1
                                     | Inr (cs, s) \<Rightarrow> 2 * weight s + 2 * length cs)"
    by (auto dest: arg_cong [where f = snd])
qed

section \<open>The grid\<close>

lemma at_index_in: "0 \<le> i \<Longrightarrow> i < int (length xs) \<Longrightarrow> at_index xs i = Some (xs ! nat i)"
  by (simp add: at_index_def)

lemma at_index_None: "at_index xs i = None \<longleftrightarrow> \<not> (0 \<le> i \<and> i < int (length xs))"
  by (simp add: at_index_def)

lemma cell_in_grid:
  assumes "dims s" and "in_grid s c"
  shows "symbol_at (matrix s) c = Some (matrix s ! nat (fst c) ! nat (snd c))"
proof -
  from assms have r: "0 \<le> fst c" "fst c < int (length (matrix s))"
    by (simp_all add: dims_def in_grid_def)
  then have "matrix s ! nat (fst c) \<in> set (matrix s)" by simp
  with assms have "int (length (matrix s ! nat (fst c))) = columns s" by (simp add: dims_def)
  with assms r show ?thesis by (simp add: symbol_at_def at_index_in in_grid_def)
qed

lemma cell_outside:
  assumes "dims s" and "\<not> in_grid s c"
  shows "symbol_at (matrix s) c = None"
proof (cases "0 \<le> fst c \<and> fst c < int (length (matrix s))")
  case True
  then have "nat (fst c) < length (matrix s)" by linarith
  then have "matrix s ! nat (fst c) \<in> set (matrix s)" by (rule nth_mem)
  with assms have "int (length (matrix s ! nat (fst c))) = columns s" by (simp add: dims_def)
  with assms True show ?thesis by (auto simp: symbol_at_def at_index_def in_grid_def dims_def)
next
  case False
  then show ?thesis by (auto simp: symbol_at_def at_index_def)
qed

lemma is_mine_in_grid: "dims s \<Longrightarrow> is_mine s c \<Longrightarrow> in_grid s c"
  using cell_outside [of s c] by (auto simp: is_mine_def)

lemma row_at:
  assumes "dims s" and "0 \<le> a" and "a < rows s"
  shows "at_index (matrix s) a = Some (matrix s ! nat a)"
  using assms by (simp add: at_index_in dims_def)

section \<open>Counting the mines around a cell\<close>

lemma mine_term_value:
  assumes "dims s" and "g \<longrightarrow> 0 \<le> a \<and> a < rows s"
  shows "mine_term s g a b = Inr (if g \<and> is_mine s (a, b) then 1 else 0)"
proof (cases g)
  case True
  with assms row_at [of s a] show ?thesis
    by (simp add: mine_term_def is_mine_def symbol_at_def)
next
  case False
  then show ?thesis by (simp add: mine_term_def)
qed

lemma add_terms_Inr: "add_terms k (map Inr ns) = Inr (k + sum_list ns)"
  by (induction ns arbitrary: k) simp_all

lemma near: "\<bar>x - a\<bar> \<le> 1 \<longleftrightarrow> a = x - 1 \<or> a = x \<or> a = x + (1::int)"
  by arith

lemma adjacent_eight: "adjacent c d \<longleftrightarrow> d \<in> set (eight c)"
proof -
  obtain x y a b where c: "c = (x, y)" and d: "d = (a, b)" by (cases c, cases d)
  show ?thesis unfolding c d adjacent_def eight_def Let_def fst_conv snd_conv near
    by (simp del: abs_le_iff) presburger
qed

lemma distinct_eight: "distinct (eight c)"
  by (simp add: eight_def Let_def)

lemma length_filter_sum: "length (filter P xs) = sum_list (map (\<lambda>x. if P x then 1 else 0) xs)"
  by (induction xs) simp_all

lemma mine_count_sum:
  "mine_count s c = sum_list (map (\<lambda>d. if in_grid s d \<and> is_mine s d then 1 else 0) (eight c))"
proof -
  have "{d \<in> neighbours s c. is_mine s d} = {d. in_grid s d \<and> is_mine s d} \<inter> set (eight c)"
    by (auto simp: neighbours_def adjacent_eight)
  then have "mine_count s c = length (filter (\<lambda>d. in_grid s d \<and> is_mine s d) (eight c))"
    by (simp add: mine_count_def distinct_length_filter [OF distinct_eight])
  then show ?thesis by (simp only: length_filter_sum)
qed

lemma mine_count_le_8: "mine_count s c \<le> 8"
proof -
  have "sum_list (map (\<lambda>d. if in_grid s d \<and> is_mine s d then 1 else 0) (eight c))
      \<le> sum_list (map (\<lambda>d. 1::nat) (eight c))"
    by (rule sum_list_mono) simp
  also have "\<dots> = 8" by (simp add: eight_def Let_def)
  finally show ?thesis by (simp add: mine_count_sum)
qed

lemma frame_safeCells [simp]:
  "in_grid (s\<lparr>safeCells := l\<rparr>) = in_grid s"
  "dims (s\<lparr>safeCells := l\<rparr>) = dims s"
  "is_mine (s\<lparr>safeCells := l\<rparr>) = is_mine s"
  "types (s\<lparr>safeCells := l\<rparr>) = types s"
  "mine_count (s\<lparr>safeCells := l\<rparr>) = mine_count s"
  "symbol (s\<lparr>safeCells := l\<rparr>) = symbol s"
  "safe_list (s\<lparr>safeCells := l\<rparr>) = safe_list s"
  "symbol_matrix (s\<lparr>safeCells := l\<rparr>) = symbol_matrix s"
  by (simp_all add: fun_eq_iff in_grid_def dims_def is_mine_def types_def mine_count_def
      neighbours_def symbol_def safe_list_def symbol_matrix_def)

lemma eight_terms:
  assumes "in_grid s (x, y)"
  shows "map (\<lambda>d. if in_grid s d \<and> is_mine s d then 1 else 0) (eight (x, y)) =
    [if (x > 0 \<and> y > 0) \<and> is_mine s (x - 1, y - 1) then 1 else 0,
     if x > 0 \<and> is_mine s (x - 1, y) then 1 else 0,
     if (x > 0 \<and> y < columns s - 1) \<and> is_mine s (x - 1, y + 1) then 1 else 0,
     if y > 0 \<and> is_mine s (x, y - 1) then 1 else 0,
     if y < columns s - 1 \<and> is_mine s (x, y + 1) then 1 else 0,
     if (x < rows s - 1 \<and> y > 0) \<and> is_mine s (x + 1, y - 1) then 1 else 0,
     if x < rows s - 1 \<and> is_mine s (x + 1, y) then 1 else 0,
     if (x < rows s - 1 \<and> y < columns s - 1) \<and> is_mine s (x + 1, y + 1) then 1 else (0::nat)]"
proof -
  from assms have g: "0 \<le> x" "x < rows s" "0 \<le> y" "y < columns s"
    by (simp_all add: in_grid_def)
  have 1: "in_grid s (x - 1, y - 1) \<longleftrightarrow> x > 0 \<and> y > 0"
    and 2: "in_grid s (x - 1, y) \<longleftrightarrow> x > 0"
    and 3: "in_grid s (x - 1, y + 1) \<longleftrightarrow> x > 0 \<and> y < columns s - 1"
    and 4: "in_grid s (x, y - 1) \<longleftrightarrow> y > 0"
    and 5: "in_grid s (x, y + 1) \<longleftrightarrow> y < columns s - 1"
    and 6: "in_grid s (x + 1, y - 1) \<longleftrightarrow> x < rows s - 1 \<and> y > 0"
    and 7: "in_grid s (x + 1, y) \<longleftrightarrow> x < rows s - 1"
    and 8: "in_grid s (x + 1, y + 1) \<longleftrightarrow> x < rows s - 1 \<and> y < columns s - 1"
    using g unfolding in_grid_def fst_conv snd_conv by linarith+
  show ?thesis
    unfolding eight_def Let_def fst_conv snd_conv list.map 1 2 3 4 5 6 7 8 ..
qed

lemma getNumberOfMines_value:
  assumes "dims s" and "in_grid s (x, y)"
  shows "getNumberOfMines s x y =
     (Inr (symbol s (x, y)),
      s\<lparr>safeCells := safeCells s @ safe_list s [(x, y)]\<rparr>)"
proof -
  from assms have g: "0 \<le> x" "x < rows s" "0 \<le> y" "y < columns s"
    by (simp_all add: in_grid_def)
  have row: "at_index (matrix s) x = Some (matrix s ! nat x)"
    using assms(1) g by (simp add: row_at)
  show ?thesis
  proof (cases "is_mine s (x, y)")
    case True
    with row show ?thesis
      by (simp add: getNumberOfMines_def is_mine_def symbol_at_def symbol_def safe_list_def)
  next
    case False
    define s' where "s' = s\<lparr>safeCells := safeCells s @ [(x, y)]\<rparr>"
    have d: "dims s'" using assms by (simp add: s'_def)
    have f: "rows s' = rows s" "columns s' = columns s" "is_mine s' = is_mine s"
      "types s' = types s" "matrix s' = matrix s"
      by (simp_all add: s'_def)
    have t: "mine_term s' guard a b = Inr (if guard \<and> is_mine s (a, b) then 1 else 0)"
      if "guard \<longrightarrow> 0 \<le> a \<and> a < rows s" for guard a b
      using mine_term_value [OF d, of guard a b] that by (simp only: f)
    have "add_terms 0
       [mine_term s' (x > 0 \<and> y > 0) (x - 1) (y - 1),
        mine_term s' (x > 0) (x - 1) y,
        mine_term s' (x > 0 \<and> y < columns s' - 1) (x - 1) (y + 1),
        mine_term s' (y > 0) x (y - 1),
        mine_term s' (y < columns s' - 1) x (y + 1),
        mine_term s' (x < rows s' - 1 \<and> y > 0) (x + 1) (y - 1),
        mine_term s' (x < rows s' - 1) (x + 1) y,
        mine_term s' (x < rows s' - 1 \<and> y < columns s' - 1) (x + 1) (y + 1)]
       = add_terms 0 (map Inr (map (\<lambda>d. if in_grid s d \<and> is_mine s d then 1 else 0) (eight (x, y))))"
      unfolding eight_terms [OF assms(2)] f list.map
      using g by (intro arg_cong [where f = "add_terms 0"]) (simp add: t)
    then have sum: "add_terms 0
       [mine_term s' (x > 0 \<and> y > 0) (x - 1) (y - 1),
        mine_term s' (x > 0) (x - 1) y,
        mine_term s' (x > 0 \<and> y < columns s' - 1) (x - 1) (y + 1),
        mine_term s' (y > 0) x (y - 1),
        mine_term s' (y < columns s' - 1) x (y + 1),
        mine_term s' (x < rows s' - 1 \<and> y > 0) (x + 1) (y - 1),
        mine_term s' (x < rows s' - 1) (x + 1) y,
        mine_term s' (x < rows s' - 1 \<and> y < columns s' - 1) (x + 1) (y + 1)]
       = Inr (mine_count s (x, y))"
      by (simp only: add_terms_Inr mine_count_sum add_0)
    have nm: "at_index (matrix s ! nat x) y \<noteq> Some (mine (types s))"
      using False row by (simp add: is_mine_def symbol_at_def)
    have "getNumberOfMines s x y = (Inr (numbers (types s') ! mine_count s (x, y)), s')"
      unfolding getNumberOfMines_def Let_def row option.case s'_def [symmetric]
      using nm sum by simp
    with False show ?thesis
      by (simp add: symbol_def safe_list_def s'_def f)
  qed
qed

section \<open>populate\<close>

lemma row_cells_Suc: "row_cells x y (Suc n) = (x, y) # row_cells x (y + 1) n"
  by (simp add: row_cells_def map_upt_Suc ac_simps del: upt_Suc)

lemma symbol_matrix_Suc:
  "symbol_matrix s x (Suc k) =
     map (symbol s) (row_cells x 0 (nat (columns s))) # symbol_matrix s (x + 1) k"
  by (simp add: symbol_matrix_def map_upt_Suc ac_simps del: upt_Suc)

lemma grid_cells_Suc:
  "grid_cells s x (Suc k) = row_cells x 0 (nat (columns s)) @ grid_cells s (x + 1) k"
  by (simp add: grid_cells_def map_upt_Suc ac_simps del: upt_Suc)

lemma safe_list_append: "safe_list s (xs @ ys) = safe_list s xs @ safe_list s ys"
  by (simp add: safe_list_def)

lemma populate_row_value:
  assumes "dims s" and "0 \<le> x" and "x < rows s" and "0 \<le> y"
    and "y + int (length cols) \<le> columns s"
  shows "populate_row s x y cols =
     (Inr (map (symbol s) (row_cells x y (length cols))),
      s\<lparr>safeCells := safeCells s @ safe_list s (row_cells x y (length cols))\<rparr>)"
  using assms
proof (induction cols arbitrary: y s)
  case Nil
  then show ?case by (simp add: row_cells_def safe_list_def)
next
  case (Cons col cols)
  define s1 where "s1 = s\<lparr>safeCells := safeCells s @ safe_list s [(x, y)]\<rparr>"
  from Cons.prems have "in_grid s (x, y)" by (simp add: in_grid_def)
  with Cons.prems have g: "getNumberOfMines s x y = (Inr (symbol s (x, y)), s1)"
    by (simp add: getNumberOfMines_value s1_def)
  have "populate_row s1 x (y + 1) cols =
     (Inr (map (symbol s1) (row_cells x (y + 1) (length cols))),
      s1\<lparr>safeCells := safeCells s1 @ safe_list s1 (row_cells x (y + 1) (length cols))\<rparr>)"
    using Cons.prems by (intro Cons.IH) (simp_all add: s1_def)
  then have "populate_row s1 x (y + 1) cols =
     (Inr (map (symbol s) (row_cells x (y + 1) (length cols))),
      s\<lparr>safeCells := safeCells s @ safe_list s ((x, y) # row_cells x (y + 1) (length cols))\<rparr>)"
    using safe_list_append [of s "[(x, y)]" "row_cells x (y + 1) (length cols)"]
    by (simp add: s1_def)
  with g show ?case by (simp add: row_cells_Suc)
qed

lemma populate_rows_value:
  assumes "dims s" and "0 \<le> x" and "x + int (length rs) \<le> rows s"
    and "\<forall>row \<in> set rs. int (length row) = columns s"
  shows "populate_rows s x rs =
     (Inr (symbol_matrix s x (length rs)),
      s\<lparr>safeCells := safeCells s @ safe_list s (grid_cells s x (length rs))\<rparr>)"
  using assms
proof (induction rs arbitrary: x s)
  case Nil
  then show ?case by (simp add: symbol_matrix_def grid_cells_def safe_list_def)
next
  case (Cons row rs)
  define s1 where "s1 = s\<lparr>safeCells := safeCells s @ safe_list s (row_cells x 0 (nat (columns s)))\<rparr>"
  from Cons.prems have len: "length row = nat (columns s)" by auto
  have r: "populate_row s x 0 row = (Inr (map (symbol s) (row_cells x 0 (nat (columns s)))), s1)"
    using Cons.prems populate_row_value [of s x 0 row] by (simp add: len s1_def)
  have "populate_rows s1 (x + 1) rs =
     (Inr (symbol_matrix s1 (x + 1) (length rs)),
      s1\<lparr>safeCells := safeCells s1 @ safe_list s1 (grid_cells s1 (x + 1) (length rs))\<rparr>)"
    using Cons.prems by (intro Cons.IH) (simp_all add: s1_def)
  moreover have "grid_cells s1 = grid_cells s"
    by (simp add: fun_eq_iff grid_cells_def s1_def)
  ultimately have "populate_rows s1 (x + 1) rs =
     (Inr (symbol_matrix s (x + 1) (length rs)),
      s\<lparr>safeCells := safeCells s @ safe_list s (grid_cells s x (Suc (length rs)))\<rparr>)"
    by (simp add: s1_def grid_cells_Suc safe_list_append)
  with r show ?case by (simp add: symbol_matrix_Suc)
qed

text \<open>What \<open>populate\<close> leaves: the matrix of the symbols and the safe cells of the scan.\<close>

lemma populate_value:
  assumes "dims s"
  shows "populate s =
     (Inr (), s\<lparr>safeCells := safeCells s @ safe_list s (grid_cells s 0 (nat (rows s))),
                matrix := symbol_matrix s 0 (nat (rows s))\<rparr>)"
proof -
  from assms have "length (matrix s) = nat (rows s)" "0 \<le> rows s"
    "\<forall>row \<in> set (matrix s). int (length row) = columns s"
    by (auto simp: dims_def)
  with assms populate_rows_value [of s 0 "matrix s"] show ?thesis
    by (simp add: populate_def)
qed

lemma set_row_cells: "set (row_cells x 0 n) = {c. fst c = x \<and> 0 \<le> snd c \<and> snd c < int n}"
proof -
  have "(x, b) \<in> (\<lambda>k. (x, int k)) ` {0..<n}" if "0 \<le> b" "b < int n" for b
    using that by (intro image_eqI [where x = "nat b"]) auto
  then show ?thesis by (auto simp: row_cells_def)
qed

lemma set_grid_cells: "set (grid_cells s 0 (nat (rows s))) = {c. in_grid s c}"
proof -
  have "\<exists>k \<in> {0..<nat (rows s)}. c \<in> set (row_cells (0 + int k) 0 (nat (columns s)))"
    if "in_grid s c" for c
    using that by (intro bexI [of _ "nat (fst c)"]) (auto simp: set_row_cells in_grid_def)
  moreover have "in_grid s c"
    if "k < nat (rows s)" "c \<in> set (row_cells (0 + int k) 0 (nat (columns s)))" for c k
    using that by (auto simp: set_row_cells in_grid_def split: if_splits)
  ultimately show ?thesis unfolding grid_cells_def by auto
qed

lemma cell_symbol_matrix:
  "symbol_at (symbol_matrix s 0 (nat (rows s))) c = (if in_grid s c then Some (symbol s c) else None)"
proof (cases "in_grid s c")
  case True
  then have "nat (fst c) < nat (rows s)" "nat (snd c) < nat (columns s)"
    "0 \<le> fst c" "0 \<le> snd c" "fst c < rows s" "snd c < columns s"
    by (auto simp: in_grid_def)
  with True show ?thesis
    by (simp add: symbol_at_def symbol_matrix_def at_index_def row_cells_def)
next
  case False
  then show ?thesis
    by (auto simp: symbol_at_def symbol_matrix_def at_index_def row_cells_def in_grid_def
        split: if_splits)
qed

lemma dims_symbol_matrix:
  "0 \<le> rows s \<Longrightarrow> 0 \<le> columns s \<Longrightarrow> dims (s\<lparr>matrix := symbol_matrix s 0 (nat (rows s))\<rparr>)"
  by (auto simp: dims_def symbol_matrix_def row_cells_def)

lemma dims_nonneg: "dims s \<Longrightarrow> 0 \<le> rows s"
  by (auto simp: dims_def)

lemma number_symbol:
  assumes "k \<le> 8"
  shows "numbers (types s) ! k = spoilerize (spaces s) (number_names ! k)"
proof -
  have "length number_names = 9" by (simp add: number_names_def)
  with assms show ?thesis by (simp add: types_def)
qed

lemma dims_populated:
  assumes "dims s"
  shows "dims (s\<lparr>safeCells := l, matrix := symbol_matrix s 0 (nat (rows s))\<rparr>)"
proof (cases "matrix s")
  case Nil
  with assms show ?thesis by (simp add: dims_def symbol_matrix_def)
next
  case (Cons row rest)
  with assms have "0 \<le> columns s" by (auto simp: dims_def)
  with assms show ?thesis by (auto simp: dims_def symbol_matrix_def row_cells_def)
qed

subsection \<open>The counts of populate\<close>

text \<open>
  C2. On a matrix of \<open>rows\<close> by \<open>columns\<close> symbols, \<open>populate\<close> returns normally and leaves
  a matrix of the same size in which every mine is still the mine symbol and every
  other cell holds the masked name of a number: the number of mines among its Moore
  neighbours inside the grid, at most 8.
\<close>

theorem populate_counts:
  assumes "dims s"
  shows "\<exists>s'. populate s = (Inr (), s') \<and> dims s' \<and>
     (\<forall>c. in_grid s c \<longrightarrow>
        (is_mine s c \<longrightarrow> symbol_at (matrix s') c = Some (mine (types s))) \<and>
        (\<not> is_mine s c \<longrightarrow>
           symbol_at (matrix s') c =
             Some (spoilerize (spaces s) (number_names ! mine_count s c)) \<and>
           mine_count s c \<le> 8))"
proof -
  define s' where "s' = s\<lparr>safeCells := safeCells s @ safe_list s (grid_cells s 0 (nat (rows s))),
    matrix := symbol_matrix s 0 (nat (rows s))\<rparr>"
  have "populate s = (Inr (), s')"
    using populate_value [OF assms] by (simp add: s'_def)
  moreover have "dims s'"
    unfolding s'_def by (rule dims_populated [OF assms])
  moreover have "symbol_at (matrix s') c = Some (mine (types s))" if "in_grid s c" "is_mine s c" for c
    using that by (simp add: s'_def cell_symbol_matrix symbol_def)
  moreover have "symbol_at (matrix s') c = Some (spoilerize (spaces s) (number_names ! mine_count s c))"
    if "in_grid s c" "\<not> is_mine s c" for c
    using that number_symbol [OF mine_count_le_8, of s s c]
    by (simp add: s'_def cell_symbol_matrix symbol_def)
  ultimately show ?thesis using mine_count_le_8 by blast
qed

theorem populate_counts_witness:
  "dims small_field \<and> in_grid small_field (0, 1) \<and> \<not> is_mine small_field (0, 1) \<and>
   mine_count small_field (0, 1) = 1 \<and>
   fst (populate small_field) = Inr () \<and>
   symbol_at (matrix (snd (populate small_field))) (0, 1) = Some ''|| :one: ||''"
proof -
  have d: "dims small_field"
    by (simp add: dims_def small_field_def constructor_def small_opts_def field_def or_number_def)
  have g: "in_grid small_field (0, 1)"
    by (simp add: in_grid_def small_field_def constructor_def small_opts_def field_def or_number_def)
  have m: "is_mine small_field c \<longleftrightarrow> c = (0, 0)" for c
  proof (cases "in_grid small_field c")
    case True
    then have "(fst c = 0 \<or> fst c = 1) \<and> (snd c = 0 \<or> snd c = 1)"
      by (auto simp: in_grid_def small_field_def constructor_def small_opts_def field_def or_number_def)
    then show ?thesis
      by (cases c)
        (auto simp: is_mine_def symbol_at_def at_index_def small_field_def constructor_def
          small_opts_def field_def or_number_def or_string_def nullish_def types_def spoilerize_def)
  next
    case False
    with d is_mine_in_grid [of small_field c] g show ?thesis
      by (auto simp: in_grid_def)
  qed
  have n: "mine_count small_field (0, 1) = 1"
    by (simp add: mine_count_sum eight_def m)
      (simp add: in_grid_def small_field_def constructor_def small_opts_def field_def or_number_def)
  from populate_counts [OF d] obtain s' where
    p: "populate small_field = (Inr (), s')" and
    c: "\<And>c. in_grid small_field c \<Longrightarrow> \<not> is_mine small_field c \<Longrightarrow>
        symbol_at (matrix s') c =
          Some (spoilerize (spaces small_field) (number_names ! mine_count small_field c))"
    by blast
  have "symbol_at (matrix s') (0, 1) = Some ''|| :one: ||''"
    using c [OF g] m [of "(0, 1)"] n
    by (simp add: number_names_def spoilerize_def small_field_def constructor_def small_opts_def
        field_def nullish_def)
  with d g m [of "(0, 1)"] n p show ?thesis by simp
qed

section \<open>Replacing one symbol\<close>

lemma dims_set_cell: "dims s \<Longrightarrow> dims (s\<lparr>matrix := set_cell (matrix s) c v\<rparr>)"
proof -
  assume d: "dims s"
  have "int (length row) = columns s"
    if "row \<in> set ((matrix s)[nat (fst c) := (matrix s ! nat (fst c))[nat (snd c) := v]])" for row
  proof (cases "nat (fst c) < length (matrix s)")
    case True
    then have "matrix s ! nat (fst c) \<in> set (matrix s)" by simp
    with that d show ?thesis
      by (auto simp: dims_def dest!: set_update_subset_insert [THEN subsetD])
  next
    case False
    then have "(matrix s)[nat (fst c) := (matrix s ! nat (fst c))[nat (snd c) := v]] = matrix s"
      by (simp add: list_update_beyond)
    with that d show ?thesis by (simp add: dims_def)
  qed
  with d show ?thesis by (simp add: dims_def set_cell_def)
qed

lemma symbol_at_set_cell:
  assumes "dims s" and "in_grid s c"
  shows "symbol_at (set_cell (matrix s) c v) d = (if d = c then Some v else symbol_at (matrix s) d)"
proof -
  obtain i j a b where c: "c = (i, j)" and d: "d = (a, b)" by (cases c, cases d)
  from assms have i: "0 \<le> i" "i < int (length (matrix s))" "nat i < length (matrix s)"
    by (auto simp: in_grid_def dims_def c)
  then have "matrix s ! nat i \<in> set (matrix s)" by simp
  with assms have j: "0 \<le> j" "j < int (length (matrix s ! nat i))" "nat j < length (matrix s ! nat i)"
    by (auto simp: in_grid_def dims_def c)
  show ?thesis
  proof (cases "a = i")
    case True
    with i j show ?thesis
      by (auto simp: symbol_at_def set_cell_def at_index_def c d nth_list_update)
  next
    case False
    with i have "0 \<le> a \<Longrightarrow> nat a \<noteq> nat i" by simp
    with False i show ?thesis
      by (auto simp: symbol_at_def set_cell_def at_index_def c d nth_list_update)
  qed
qed

lemma unmask_value:
  assumes "dims s" and "in_grid s c" and "symbol_at (matrix s) c = Some v"
  shows "unmask s (fst c) (snd c) = (Inr (), s\<lparr>matrix := set_cell (matrix s) c (slice v 2 (- 2))\<rparr>)"
proof -
  from assms(1,2) have "at_index (matrix s) (fst c) = Some (matrix s ! nat (fst c))"
    by (simp add: row_at in_grid_def)
  with assms(3) show ?thesis
    by (simp add: unmask_def symbol_at_def set_cell_def)
qed

lemma floor_index:
  assumes "0 \<le> r" and "r < 1" and "0 < n"
  shows "0 \<le> \<lfloor>r * real n\<rfloor> \<and> \<lfloor>r * real n\<rfloor> < int n"
proof -
  from assms have "0 \<le> r * real n" by simp
  moreover from assms have "r * real n < 1 * real n" by (intro mult_strict_right_mono) simp_all
  ultimately show ?thesis by (simp add: floor_less_iff)
qed

lemma zero_filter_value:
  assumes "dims s" and "\<forall>c \<in> set cs. in_grid s c"
  shows "zero_filter s cs =
     Inr (filter (\<lambda>c. symbol_at (matrix s) c = Some (numbers (types s) ! 0)) cs)"
  using assms(2)
proof (induction cs)
  case Nil
  then show ?case by simp
next
  case (Cons c cs)
  then have "in_grid s c" by simp
  with assms(1) have "at_index (matrix s) (fst c) = Some (matrix s ! nat (fst c))"
    by (simp add: row_at in_grid_def)
  with Cons show ?case by (simp add: symbol_at_def)
qed

section \<open>Spoilers\<close>

lemma slice_2_2:
  "slice (a # b # str @ [c, d]) 2 (- 2) = str"
  by (simp add: slice_def Let_def)

lemma slice_spoilerize:
  "slice (spoilerize sp name) 2 (- 2) =
     (if sp then '' :'' @ name @ '': '' else '':'' @ name @ '':'')"
proof (cases sp)
  case True
  have "spoilerize True name = CHR ''|'' # CHR ''|'' # ('' :'' @ name @ '': '') @ [CHR ''|'', CHR ''|'']"
    by (simp add: spoilerize_def)
  then show ?thesis using True by (simp only: slice_2_2 if_True)
next
  case False
  have "spoilerize False name = CHR ''|'' # CHR ''|'' # ('':'' @ name @ '':'') @ [CHR ''|'', CHR ''|'']"
    by (simp add: spoilerize_def)
  then show ?thesis using False by (simp only: slice_2_2 if_False)
qed

lemma spoilerize_masked: "str_includes (spoilerize sp str) ''||''"
  by (simp add: spoilerize_def)

lemma number_unmasked:
  assumes "name \<in> set number_names"
  shows "\<not> str_includes (slice (spoilerize sp name) 2 (- 2)) ''||''"
  using assms unfolding slice_spoilerize number_names_def by (cases sp) auto

lemma number_name_in: "k \<le> 8 \<Longrightarrow> number_names ! k \<in> set number_names"
  by (rule nth_mem) (simp add: number_names_def)

section \<open>The state after populate\<close>

lemma populate_facts:
  assumes "dims s0" and "populate s0 = (Inr (), s)"
  shows "dims s"
    and "in_grid s = in_grid s0"
    and "types s = types s0"
    and "spaces s = spaces s0"
    and "symbol_at (matrix s) c = (if in_grid s0 c then Some (symbol s0 c) else None)"
    and "safeCells s = safeCells s0 @ safe_list s0 (grid_cells s0 0 (nat (rows s0)))"
    and "rows s = rows s0" and "columns s = columns s0"
proof -
  have s: "s = s0\<lparr>safeCells := safeCells s0 @ safe_list s0 (grid_cells s0 0 (nat (rows s0))),
    matrix := symbol_matrix s0 0 (nat (rows s0))\<rparr>"
    using populate_value [OF assms(1)] assms(2) by simp
  show "dims s" unfolding s by (rule dims_populated [OF assms(1)])
  show "in_grid s = in_grid s0" by (simp add: s in_grid_def fun_eq_iff)
  show "types s = types s0" by (simp add: s types_def)
  show "spaces s = spaces s0" by (simp add: s)
  show "symbol_at (matrix s) c = (if in_grid s0 c then Some (symbol s0 c) else None)"
    by (simp add: s cell_symbol_matrix)
  show "safeCells s = safeCells s0 @ safe_list s0 (grid_cells s0 0 (nat (rows s0)))"
    by (simp add: s)
  show "rows s = rows s0" "columns s = columns s0" by (simp_all add: s)
qed

lemma symbol_number:
  "\<not> is_mine s c \<Longrightarrow> symbol s c = spoilerize (spaces s) (number_names ! mine_count s c)"
  using number_symbol [OF mine_count_le_8, of s s c] by (simp add: symbol_def)



lemma frame_calls [simp]:
  "in_grid (s\<lparr>calls := n\<rparr>) = in_grid s"
  "dims (s\<lparr>calls := n\<rparr>) = dims s"
  "types (s\<lparr>calls := n\<rparr>) = types s"
  by (simp_all add: fun_eq_iff in_grid_def dims_def types_def)

lemma safe_cells_populated:
  assumes "dims s0" and "safeCells s0 = []" and "populate s0 = (Inr (), s)"
  shows "set (safeCells s) = {c. in_grid s0 c \<and> \<not> is_mine s0 c}"
  using populate_facts(6) [OF assms(1,3)] assms(2)
  by (auto simp: safe_list_def set_grid_cells)

lemma at_index_mem: "at_index xs i = Some v \<Longrightarrow> v \<in> set xs"
  by (auto simp: at_index_def split: if_splits)

subsection \<open>The reveal of a single cell\<close>

text \<open>The run of \<open>revealFirst\<close> through its second branch.\<close>

lemma revealFirst_one:
  assumes "dims s0" and "safeCells s0 = []" and "populate s0 = (Inr (), s)"
    and "revealFirstCell s"
    and "\<not> zeroFirstCell s \<or>
         (\<forall>c \<in> set (safeCells s). symbol_at (matrix s) c \<noteq> Some (numbers (types s) ! 0))"
    and "safeCells s \<noteq> []"
    and "0 \<le> rng s (calls s)" and "rng s (calls s) < 1"
  shows "\<exists>c. c \<in> set (safeCells s) \<and>
     revealFirst s = (Inr c, s\<lparr>calls := Suc (calls s),
       matrix := set_cell (matrix s) c (slice (symbol s0 c) 2 (- 2))\<rparr>)"
proof -
  note F = populate_facts [OF assms(1,3)]
  note safe = safe_cells_populated [OF assms(1,2,3)]
  define s1 where "s1 = s\<lparr>calls := Suc (calls s)\<rparr>"
  define zs where "zs = filter (\<lambda>c. symbol_at (matrix s) c = Some (numbers (types s) ! 0)) (safeCells s)"
  define k where "k = \<lfloor>rng s (calls s) * real (length (safeCells s))\<rfloor>"
  have d1: "dims s1" using F(1) by (simp add: s1_def)
  have "\<forall>c \<in> set (safeCells s). in_grid s c" using safe F(2) by simp
  then have zf: "zero_filter s (safeCells s) = Inr zs"
    unfolding zs_def by (rule zero_filter_value [OF F(1)])
  have branch: "\<not> (zeroFirstCell s \<and> length zs > 0)"
    using assms(5) by (auto simp: zs_def filter_empty_conv)
  have "0 < length (safeCells s)" using assms(6) by simp
  from floor_index [OF assms(7,8) this]
  have k: "0 \<le> k" "k < int (length (safeCells s))" by (simp_all add: k_def)
  define c where "c = safeCells s ! nat k"
  have pick: "at_index (safeCells s) k = Some c" using k by (simp add: at_index_def c_def)
  then have mem: "c \<in> set (safeCells s)" by (rule at_index_mem)
  with safe have c: "in_grid s0 c" "\<not> is_mine s0 c" by simp_all
  then have g1: "in_grid s1 c" by (simp add: s1_def F(2))
  have v: "symbol_at (matrix s1) c = Some (symbol s0 c)"
    using c F(5) [of c] by (simp add: s1_def)
  define s' where "s' = s1\<lparr>matrix := set_cell (matrix s1) c (slice (symbol s0 c) 2 (- 2))\<rparr>"
  have um: "unmask s1 (fst c) (snd c) = (Inr (), s')"
    unfolding s'_def by (rule unmask_value [OF d1 g1 v])
  have "revealFirst s = (Inr c, s')"
    using assms(4) zf branch pick um
    by (auto simp: revealFirst_def next_rng_def s1_def [symmetric] k_def [symmetric]
        s1_def [THEN arg_cong [where f = safeCells], simplified])
  then have "revealFirst s = (Inr c, s\<lparr>calls := Suc (calls s),
       matrix := set_cell (matrix s) c (slice (symbol s0 c) 2 (- 2))\<rparr>)"
    by (simp add: s'_def s1_def)
  with mem show ?thesis by blast
qed



section \<open>The region of a reveal\<close>

lemma spoilerize_inj: "spoilerize sp a = spoilerize sp b \<Longrightarrow> a = b"
  by (cases sp) (simp_all add: spoilerize_def)

lemma distinct_number_names: "distinct number_names"
  by (simp add: number_names_def)

lemma number_zero:
  assumes "k \<le> 8" and "numbers (types s) ! k = numbers (types s) ! 0"
  shows "k = 0"
proof -
  from assms have "number_names ! k = number_names ! 0"
    by (simp add: number_symbol spoilerize_inj)
  moreover have "k < length number_names" "0 < length number_names"
    using assms(1) by (simp_all add: number_names_def)
  ultimately show ?thesis
    using distinct_number_names by (simp add: nth_eq_iff_index_eq)
qed

lemma zero_cell_count:
  assumes "dims s0" and "populate s0 = (Inr (), s)" and "zero_cell s c" and "\<not> is_mine s0 c"
  shows "mine_count s0 c = 0"
proof -
  note F = populate_facts [OF assms(1,2)]
  from assms(3,4) have "numbers (types s0) ! mine_count s0 c = numbers (types s0) ! 0"
    by (simp add: zero_cell_def F symbol_def split: if_splits)
  with mine_count_le_8 show ?thesis by (rule number_zero)
qed

lemma finite_neighbours: "finite (neighbours s c)"
proof -
  have "neighbours s c \<subseteq> set (eight c)" by (auto simp: neighbours_def adjacent_eight)
  then show ?thesis by (rule finite_subset) simp
qed

lemma no_mine_near_zero:
  assumes "mine_count s0 z = 0" and "in_grid s0 d" and "adjacent z d"
  shows "\<not> is_mine s0 d"
proof -
  have "finite {d \<in> neighbours s0 z. is_mine s0 d}"
    using finite_neighbours [of s0 z] by simp
  with assms(1) have e: "{d \<in> neighbours s0 z. is_mine s0 d} = {}"
    by (simp add: mine_count_def)
  show ?thesis
  proof
    assume "is_mine s0 d"
    with assms(2,3) have "d \<in> {d \<in> neighbours s0 z. is_mine s0 d}"
      by (simp add: neighbours_def)
    with e show False by blast
  qed
qed

lemma zero_region_safe:
  assumes "reveal_start s0 s origin" and "z \<in> zero_region s origin"
  shows "zero_cell s z \<and> \<not> is_mine s0 z"
  using assms(2)
proof (induction rule: zero_region.induct)
  case origin
  from assms(1) show ?case by (simp add: reveal_start_def)
next
  case (step z d)
  from assms(1) have p: "dims s0" "populate s0 = (Inr (), s)" by (simp_all add: reveal_start_def)
  from step.IH have "mine_count s0 z = 0" by (simp add: zero_cell_count [OF p])
  moreover from step.hyps(3) have "in_grid s0 d"
    by (simp add: zero_cell_def populate_facts(2) [OF p])
  ultimately have "\<not> is_mine s0 d" using step.hyps(2) by (rule no_mine_near_zero)
  with step.hyps(3) show ?case by simp
qed

lemma region_safe:
  assumes "reveal_start s0 s origin" and "d \<in> revealed_region s origin"
  shows "in_grid s0 d \<and> \<not> is_mine s0 d"
proof -
  from assms(1) have p: "dims s0" "populate s0 = (Inr (), s)" by (simp_all add: reveal_start_def)
  from assms(2) obtain z where z: "z \<in> zero_region s origin" and d: "d \<in> block s z"
    by (auto simp: revealed_region_def)
  from d have g: "in_grid s0 d" by (simp add: block_def populate_facts(2) [OF p])
  from zero_region_safe [OF assms(1) z] have "mine_count s0 z = 0" "\<not> is_mine s0 z"
    by (simp_all add: zero_cell_count [OF p])
  with d g show ?thesis by (auto simp: block_def dest: no_mine_near_zero)
qed

text \<open>A symbol of the revealed region is the masked name of a number.\<close>

lemma region_number:
  assumes "reveal_start s0 s origin" and "d \<in> revealed_region s origin"
  shows "\<exists>name \<in> set number_names. symbol_at (matrix s) d = Some (spoilerize (spaces s) name)"
proof -
  from assms(1) have p: "dims s0" "populate s0 = (Inr (), s)" by (simp_all add: reveal_start_def)
  note F = populate_facts [OF p]
  from region_safe [OF assms] have "symbol_at (matrix s) d =
     Some (spoilerize (spaces s) (number_names ! mine_count s0 d))"
    by (simp add: F symbol_number)
  with number_name_in [OF mine_count_le_8] show ?thesis by blast
qed

lemma slice_spoilerize_neq: "slice (spoilerize sp name) 2 (- 2) \<noteq> spoilerize sp name"
proof
  assume "slice (spoilerize sp name) 2 (- 2) = spoilerize sp name"
  then have "length (slice (spoilerize sp name) 2 (- 2)) = length (spoilerize sp name)" by simp
  with slice_shorter [OF spoilerize_masked, of sp name] show False by simp
qed

lemma zero_region_in_region: "z \<in> zero_region s origin \<Longrightarrow> in_grid s z \<Longrightarrow> z \<in> revealed_region s origin"
  by (auto simp: revealed_region_def block_def)

lemma block_zero_region:
  assumes "c \<in> zero_region s origin" and "d \<in> block s c" and "zero_cell s d"
  shows "d \<in> zero_region s origin"
  using assms by (auto simp: block_def intro: zero_region.step)

lemma block_region: "c \<in> zero_region s origin \<Longrightarrow> block s c \<subseteq> revealed_region s origin"
  by (auto simp: revealed_region_def)

section \<open>The loops of revealSurroundings\<close>

lemma frame_matrix [simp]:
  "in_grid (s\<lparr>matrix := m\<rparr>) = in_grid s"
  "types (s\<lparr>matrix := m\<rparr>) = types s"
  by (simp_all add: fun_eq_iff in_grid_def types_def)

lemma reveal_inv_grid: "reveal_inv s origin t \<Longrightarrow> in_grid t = in_grid s"
  by (simp add: reveal_inv_def in_grid_def fun_eq_iff)

lemma changed_region: "reveal_inv s origin t \<Longrightarrow> changed s t \<subseteq> revealed_region s origin"
  by (auto simp: reveal_inv_def changed_def)

lemma reveal_invD:
  "reveal_inv s origin t \<Longrightarrow>
     symbol_at (matrix t) d = symbol_at (matrix s) d \<or>
     d \<in> revealed_region s origin \<and>
     symbol_at (matrix t) d = map_option (\<lambda>v. slice v 2 (- 2)) (symbol_at (matrix s) d)"
  unfolding reveal_inv_def by blast

lemma reveal_invI:
  assumes "\<exists>n m. t = s\<lparr>calls := n, matrix := m\<rparr>"
    and "rows t = rows s" and "columns t = columns s" and "types t = types s" and "dims t"
    and "\<And>d. symbol_at (matrix t) d = symbol_at (matrix s) d \<or>
           d \<in> revealed_region s origin \<and>
           symbol_at (matrix t) d = map_option (\<lambda>v. slice v 2 (- 2)) (symbol_at (matrix s) d)"
  shows "reveal_inv s origin t"
  unfolding reveal_inv_def using assms by blast

lemma reveal_inv_frame: "reveal_inv s origin t \<Longrightarrow> \<exists>n m. t = s\<lparr>calls := n, matrix := m\<rparr>"
  unfolding reveal_inv_def by blast

text \<open>One visit of a cell of the revealed region.\<close>

lemma reveal_cell_inv:
  assumes "reveal_start s0 s origin" and "reveal_inv s origin t"
    and "(i, j) \<in> revealed_region s origin"
  shows "\<exists>new t'. reveal_cell i j zs t = (Inr (zs @ new), t') \<and> reveal_inv s origin t' \<and>
     changed s t' = changed s t \<union> {(i, j)} \<and>
     set new = {d \<in> {(i, j)}. d \<notin> changed s t \<and> zero_cell s d}"
proof -
  from region_number [OF assms(1,3)] obtain name where
    name: "name \<in> set number_names"
    and orig: "symbol_at (matrix s) (i, j) = Some (spoilerize (spaces s) name)"
    by blast
  from assms(1) have p: "dims s0" "populate s0 = (Inr (), s)" by (simp_all add: reveal_start_def)
  from region_safe [OF assms(1,3)] have g: "in_grid s (i, j)"
    by (simp add: populate_facts(2) [OF p])
  from assms(2) have inv: "rows t = rows s" "columns t = columns s" "types t = types s" "dims t"
    by (simp_all add: reveal_inv_def)
  from g have gt: "in_grid t (i, j)" by (simp add: reveal_inv_grid [OF assms(2)])
  have row: "at_index (matrix t) i = Some (matrix t ! nat i)"
    using inv(4) gt by (simp add: row_at in_grid_def)
  from assms(2) consider
    (same) "symbol_at (matrix t) (i, j) = Some (spoilerize (spaces s) name)"
    | (bare) "symbol_at (matrix t) (i, j) = Some (slice (spoilerize (spaces s) name) 2 (- 2))"
    using orig reveal_invD [of s origin t "(i, j)"] by auto
  then show ?thesis
  proof cases
    case same
    define t' where "t' = t\<lparr>matrix := set_cell (matrix t) (i, j) (slice (spoilerize (spaces s) name) 2 (- 2))\<rparr>"
    define new where "new = (if zero_cell s (i, j) then [(i, j)] else [])"
    have z: "spoilerize (spaces s) name = numbers (types t) ! 0 \<longleftrightarrow> zero_cell s (i, j)"
      using g orig by (auto simp: zero_cell_def inv)
    have run: "reveal_cell i j zs t = (Inr (zs @ new), t')"
      using same row z
      by (simp add: reveal_cell_def symbol_at_def spoilerize_masked t'_def set_cell_def new_def)
    have at: "symbol_at (matrix t') d =
       (if d = (i, j) then Some (slice (spoilerize (spaces s) name) 2 (- 2)) else symbol_at (matrix t) d)" for d
      using symbol_at_set_cell [OF inv(4) gt] by (simp add: t'_def)
    have "dims t'" unfolding t'_def by (rule dims_set_cell [OF inv(4)])
    moreover have "rows t' = rows s" "columns t' = columns s" "types t' = types s"
      using inv by (simp_all add: t'_def)
    moreover have "symbol_at (matrix t') d = symbol_at (matrix s) d \<or>
           d \<in> revealed_region s origin \<and>
           symbol_at (matrix t') d = map_option (\<lambda>v. slice v 2 (- 2)) (symbol_at (matrix s) d)" for d
      using reveal_invD [OF assms(2), of d] assms(3) orig by (simp add: at)
    moreover have "\<exists>n m. t' = s\<lparr>calls := n, matrix := m\<rparr>"
    proof -
      from assms(2) obtain n m where "t = s\<lparr>calls := n, matrix := m\<rparr>"
        unfolding reveal_inv_def by blast
      then have "t' = s\<lparr>calls := n,
        matrix := set_cell (matrix t) (i, j) (slice (spoilerize (spaces s) name) 2 (- 2))\<rparr>"
        by (simp add: t'_def)
      then show ?thesis by blast
    qed
    ultimately have inv': "reveal_inv s origin t'" by (intro reveal_invI)
    have notin: "(i, j) \<notin> changed s t" using same orig by (simp add: changed_def)
    have ch: "changed s t' = changed s t \<union> {(i, j)}"
      using orig slice_spoilerize_neq [of "spaces s" name] by (auto simp: changed_def at)
    have "set new = {d \<in> {(i, j)}. d \<notin> changed s t \<and> zero_cell s d}"
      using notin by (auto simp: new_def)
    with run inv' ch show ?thesis by blast
  next
    case bare
    have "\<not> str_includes (slice (spoilerize (spaces s) name) 2 (- 2)) ''||''"
      using name by (rule number_unmasked)
    with bare row have run: "reveal_cell i j zs t = (Inr (zs @ []), t)"
      by (simp add: reveal_cell_def symbol_at_def)
    have "(i, j) \<in> changed s t"
      using bare orig slice_spoilerize_neq [of "spaces s" name] by (simp add: changed_def)
    then have "changed s t = changed s t \<union> {(i, j)}"
      and "set [] = {d \<in> {(i, j)}. d \<notin> changed s t \<and> zero_cell s d}"
      by auto
    with run assms(2) show ?thesis by blast
  qed
qed

lemma reveal_columns_inv:
  assumes "reveal_start s0 s origin" and "reveal_inv s origin t"
    and "\<forall>j \<in> set js. (i, j) \<in> revealed_region s origin"
  shows "\<exists>new t'. reveal_columns i js zs t = (Inr (zs @ new), t') \<and> reveal_inv s origin t' \<and>
     changed s t' = changed s t \<union> Pair i ` set js \<and>
     set new = {d \<in> Pair i ` set js. d \<notin> changed s t \<and> zero_cell s d}"
  using assms(2,3)
proof (induction js arbitrary: zs t)
  case Nil
  then show ?case by simp
next
  case (Cons j js)
  from Cons.prems have "(i, j) \<in> revealed_region s origin" by simp
  from reveal_cell_inv [OF assms(1) Cons.prems(1) this, of zs] obtain new1 t1 where
    1: "reveal_cell i j zs t = (Inr (zs @ new1), t1)" "reveal_inv s origin t1"
      "changed s t1 = changed s t \<union> {(i, j)}"
      "set new1 = {d \<in> {(i, j)}. d \<notin> changed s t \<and> zero_cell s d}"
    by blast
  from Cons.prems have "\<forall>j \<in> set js. (i, j) \<in> revealed_region s origin" by simp
  from Cons.IH [OF 1(2) this, of "zs @ new1"] obtain new2 t2 where
    2: "reveal_columns i js (zs @ new1) t1 = (Inr ((zs @ new1) @ new2), t2)" "reveal_inv s origin t2"
      "changed s t2 = changed s t1 \<union> Pair i ` set js"
      "set new2 = {d \<in> Pair i ` set js. d \<notin> changed s t1 \<and> zero_cell s d}"
    by blast
  have "reveal_columns i (j # js) zs t = (Inr (zs @ (new1 @ new2)), t2)"
    using 1(1) 2(1) by simp
  moreover have "changed s t2 = changed s t \<union> Pair i ` set (j # js)"
    using 1(3) 2(3) by auto
  moreover have "set (new1 @ new2) = {d \<in> Pair i ` set (j # js). d \<notin> changed s t \<and> zero_cell s d}"
    using 1(3,4) 2(4) by auto
  ultimately show ?case using 2(2) by blast
qed

lemma reveal_rows_inv:
  assumes "reveal_start s0 s origin" and "reveal_inv s origin t"
    and "\<forall>i \<in> set is. \<forall>j \<in> set js. (i, j) \<in> revealed_region s origin"
  shows "\<exists>new t'. reveal_rows is js zs t = (Inr (zs @ new), t') \<and> reveal_inv s origin t' \<and>
     changed s t' = changed s t \<union> set is \<times> set js \<and>
     set new = {d \<in> set is \<times> set js. d \<notin> changed s t \<and> zero_cell s d}"
  using assms(2,3)
proof (induction "is" arbitrary: zs t)
  case Nil
  then show ?case by simp
next
  case (Cons i "is")
  from Cons.prems have "\<forall>j \<in> set js. (i, j) \<in> revealed_region s origin" by simp
  from reveal_columns_inv [OF assms(1) Cons.prems(1) this, of zs] obtain new1 t1 where
    1: "reveal_columns i js zs t = (Inr (zs @ new1), t1)" "reveal_inv s origin t1"
      "changed s t1 = changed s t \<union> Pair i ` set js"
      "set new1 = {d \<in> Pair i ` set js. d \<notin> changed s t \<and> zero_cell s d}"
    by blast
  from Cons.prems have "\<forall>i \<in> set is. \<forall>j \<in> set js. (i, j) \<in> revealed_region s origin" by simp
  from Cons.IH [OF 1(2) this, of "zs @ new1"] obtain new2 t2 where
    2: "reveal_rows is js (zs @ new1) t1 = (Inr ((zs @ new1) @ new2), t2)" "reveal_inv s origin t2"
      "changed s t2 = changed s t1 \<union> set is \<times> set js"
      "set new2 = {d \<in> set is \<times> set js. d \<notin> changed s t1 \<and> zero_cell s d}"
    by blast
  have "reveal_rows (i # is) js zs t = (Inr (zs @ (new1 @ new2)), t2)"
    using 1(1) 2(1) by simp
  moreover have "changed s t2 = changed s t \<union> set (i # is) \<times> set js"
    using 1(3) 2(3) by auto
  moreover have "set (new1 @ new2) = {d \<in> set (i # is) \<times> set js. d \<notin> changed s t \<and> zero_cell s d}"
    using 1(3,4) 2(4) by auto
  ultimately show ?case using 2(2) by blast
qed

lemma block_bounds:
  assumes "in_grid s c"
  shows "set [max 0 (fst c - 1)..min (rows s - 1) (fst c + 1)] \<times>
         set [max 0 (snd c - 1)..min (columns s - 1) (snd c + 1)] = block s c"
proof -
  have "(a, b) \<in> block s c \<longleftrightarrow>
      (max 0 (fst c - 1) \<le> a \<and> a \<le> min (rows s - 1) (fst c + 1)) \<and>
      (max 0 (snd c - 1) \<le> b \<and> b \<le> min (columns s - 1) (snd c + 1))" for a b
    using assms unfolding block_def adjacent_def in_grid_def mem_Collect_eq fst_conv snd_conv
      prod_eq_iff by (cases c) (simp, linarith)
  then show ?thesis by auto
qed

text \<open>The loops of one call, around a cell of the zero region.\<close>

lemma reveal_around_inv:
  assumes "reveal_start s0 s origin" and "reveal_inv s origin t" and "c \<in> zero_region s origin"
  shows "\<exists>new t'. reveal_around c t = (Inr new, t') \<and> reveal_inv s origin t' \<and>
     changed s t' = changed s t \<union> block s c \<and>
     set new = {d \<in> block s c. d \<notin> changed s t \<and> zero_cell s d}"
proof -
  from zero_region_safe [OF assms(1,3)] have g: "in_grid s c" by (simp add: zero_cell_def)
  from assms(2) have r: "rows t = rows s" "columns t = columns s" by (simp_all add: reveal_inv_def)
  note b = block_bounds [OF g]
  have "\<forall>i \<in> set [max 0 (fst c - 1)..min (rows s - 1) (fst c + 1)].
        \<forall>j \<in> set [max 0 (snd c - 1)..min (columns s - 1) (snd c + 1)].
          (i, j) \<in> revealed_region s origin"
    using block_region [OF assms(3)] b by blast
  from reveal_rows_inv [OF assms(1,2) this, of "[]"] show ?thesis
    unfolding b by (simp add: reveal_around_def Let_def r)
qed

section \<open>The recursion of revealSurroundings\<close>

lemma pending_after_loops:
  assumes "changed s t1 = changed s t \<union> block s c"
    and "set new = {d \<in> block s c. d \<notin> changed s t \<and> zero_cell s d}"
    and "\<And>z. z \<in> zero_region s origin \<Longrightarrow> zero_cell s z"
  shows "pending s origin t1 \<subseteq> (pending s origin t - {c}) \<union> set new"
proof
  fix z
  assume "z \<in> pending s origin t1"
  then have z: "z \<in> zero_region s origin" "z \<in> changed s t1" "\<not> block s z \<subseteq> changed s t1"
    by (simp_all add: pending_def)
  show "z \<in> (pending s origin t - {c}) \<union> set new"
  proof (cases "z \<in> changed s t")
    case True
    from z(3) assms(1) have "\<not> block s z \<subseteq> changed s t" "z \<noteq> c" by auto
    with True z(1) show ?thesis by (simp add: pending_def)
  next
    case False
    with z(2) assms(1) have "z \<in> block s c" by simp
    with False assms(2) assms(3) [OF z(1)] show ?thesis by simp
  qed
qed

text \<open>
  A call around a cell of the zero region returns normally, and when it does no change
  it has made is left to be followed up.
\<close>

lemma revealSurroundings_inv:
  assumes "reveal_start s0 s origin"
  shows "recurse \<Longrightarrow> reveal_inv s origin t \<Longrightarrow> c \<in> zero_region s origin \<Longrightarrow>
       \<exists>t'. revealSurroundings c recurse t = (Inr (), t') \<and> reveal_inv s origin t' \<and>
         changed s t \<subseteq> changed s t' \<and> pending s origin t' \<subseteq> pending s origin t - {c}"
    and "reveal_inv s origin t \<Longrightarrow> set cs \<subseteq> zero_region s origin \<Longrightarrow>
       \<exists>t'. revealSurroundings_forEach cs t = (Inr (), t') \<and> reveal_inv s origin t' \<and>
         changed s t \<subseteq> changed s t' \<and> pending s origin t' \<subseteq> pending s origin t - set cs"
proof (induction c recurse t and cs t rule: revealSurroundings_revealSurroundings_forEach.induct)
  case (1 c recurse t)
  from reveal_around_inv [OF assms "1.prems"(2,3)] obtain new t1 where
    a: "reveal_around c t = (Inr new, t1)" "reveal_inv s origin t1"
      "changed s t1 = changed s t \<union> block s c"
      "set new = {d \<in> block s c. d \<notin> changed s t \<and> zero_cell s d}"
    by blast
  have zr: "z \<in> zero_region s origin \<Longrightarrow> zero_cell s z" for z
    using zero_region_safe [OF assms] by blast
  from a(4) have sub: "set new \<subseteq> zero_region s origin"
    using block_zero_region [OF "1.prems"(3)] by auto
  from "1.IH" [OF a(1) [symmetric] refl "1.prems"(1) a(2) sub] obtain t2 where
    b: "revealSurroundings_forEach new t1 = (Inr (), t2)" "reveal_inv s origin t2"
      "changed s t1 \<subseteq> changed s t2" "pending s origin t2 \<subseteq> pending s origin t1 - set new"
    by blast
  have "revealSurroundings c recurse t = (Inr (), t2)"
    using a(1) b(1) "1.prems"(1) by simp
  moreover have "changed s t \<subseteq> changed s t2" using a(3) b(3) by blast
  moreover have "pending s origin t2 \<subseteq> pending s origin t - {c}"
    using pending_after_loops [OF a(3,4) zr, of origin] b(4) by blast
  ultimately show ?case using b(2) by blast
next
  case (2 t)
  then show ?case by simp
next
  case (3 c cs t)
  from "3.prems" have c: "c \<in> zero_region s origin" and cs: "set cs \<subseteq> zero_region s origin"
    by simp_all
  from "3.IH"(1) [OF TrueI "3.prems"(1) c] obtain t1 where
    a: "revealSurroundings c True t = (Inr (), t1)" "reveal_inv s origin t1"
      "changed s t \<subseteq> changed s t1" "pending s origin t1 \<subseteq> pending s origin t - {c}"
    by blast
  from "3.IH"(2) [OF a(1) [symmetric] refl a(2) cs] obtain t2 where
    b: "revealSurroundings_forEach cs t1 = (Inr (), t2)" "reveal_inv s origin t2"
      "changed s t1 \<subseteq> changed s t2" "pending s origin t2 \<subseteq> pending s origin t1 - set cs"
    by blast
  have "revealSurroundings_forEach (c # cs) t = (Inr (), t2)" using a(1) b(1) by simp
  moreover have "changed s t \<subseteq> changed s t2" using a(3) b(3) by blast
  moreover have "pending s origin t2 \<subseteq> pending s origin t - set (c # cs)"
    using a(4) b(4) by auto
  ultimately show ?case using b(2) by blast
qed

lemma not_pending:
  assumes "pending s origin t = {}" and "z \<in> zero_region s origin" and "z \<in> changed s t"
  shows "block s z \<subseteq> changed s t"
proof (rule ccontr)
  assume "\<not> block s z \<subseteq> changed s t"
  with assms(2,3) have "z \<in> pending s origin t" unfolding pending_def by simp
  with assms(1) show False by blast
qed

text \<open>Once nothing is pending, the changed cells are the revealed region.\<close>

lemma nothing_pending:
  assumes "reveal_inv s origin t" and "origin \<in> changed s t" and "pending s origin t = {}"
  shows "changed s t = revealed_region s origin"
proof -
  have r: "z \<in> changed s t" if "z \<in> zero_region s origin" for z
    using that
  proof (induction rule: zero_region.induct)
    case origin
    show ?case by (rule assms(2))
  next
    case (step z d)
    from assms(3) step.hyps(1) step.IH have "block s z \<subseteq> changed s t"
      by (rule not_pending)
    moreover from step.hyps(2,3) have "d \<in> block s z" by (simp add: block_def zero_cell_def)
    ultimately show ?case by blast
  qed
  have "block s z \<subseteq> changed s t" if "z \<in> zero_region s origin" for z
    using assms(3) that r [OF that] by (rule not_pending)
  then have "revealed_region s origin \<subseteq> changed s t"
    by (auto simp: revealed_region_def)
  with changed_region [OF assms(1)] show ?thesis by blast
qed

subsection \<open>The reveal of a zero region\<close>

text \<open>The run of \<open>revealFirst\<close> through its first branch, and what it leaves.\<close>

lemma revealFirst_region:
  assumes "dims s0" and "safeCells s0 = []" and "populate s0 = (Inr (), s)"
    and "revealFirstCell s" and "zeroFirstCell s"
    and "\<exists>c \<in> set (safeCells s). symbol_at (matrix s) c = Some (numbers (types s) ! 0)"
    and "0 \<le> rng s (calls s)" and "rng s (calls s) < 1"
  shows "\<exists>origin s'. revealFirst s = (Inr origin, s') \<and> reveal_start s0 s origin \<and>
     reveal_inv s origin s' \<and> changed s s' = revealed_region s origin"
proof -
  note F = populate_facts [OF assms(1,3)]
  note safe = safe_cells_populated [OF assms(1,2,3)]
  define s1 where "s1 = s\<lparr>calls := Suc (calls s)\<rparr>"
  define zs where "zs = filter (\<lambda>c. symbol_at (matrix s) c = Some (numbers (types s) ! 0)) (safeCells s)"
  define k where "k = \<lfloor>rng s (calls s) * real (length zs)\<rfloor>"
  have d1: "dims s1" using F(1) by (simp add: s1_def)
  have "\<forall>c \<in> set (safeCells s). in_grid s c" using safe F(2) by simp
  then have zf: "zero_filter s (safeCells s) = Inr zs"
    unfolding zs_def by (rule zero_filter_value [OF F(1)])
  from assms(6) have "zs \<noteq> []" by (auto simp: zs_def filter_empty_conv)
  then have len: "0 < length zs" by simp
  from floor_index [OF assms(7,8) len]
  have k: "0 \<le> k" "k < int (length zs)" by (simp_all add: k_def)
  define origin where "origin = zs ! nat k"
  have pick: "at_index zs k = Some origin" using k by (simp add: at_index_def origin_def)
  then have "origin \<in> set zs" by (rule at_index_mem)
  then have o: "origin \<in> set (safeCells s)"
    "symbol_at (matrix s) origin = Some (numbers (types s) ! 0)"
    by (simp_all add: zs_def)
  with safe have c: "in_grid s0 origin" "\<not> is_mine s0 origin" by simp_all
  then have g: "in_grid s origin" and g1: "in_grid s1 origin" by (simp_all add: s1_def F(2))
  have start: "reveal_start s0 s origin"
    using assms(1,3) c o g by (simp add: reveal_start_def zero_cell_def)
  have zr: "origin \<in> zero_region s origin" by (rule zero_region.origin)
  have v: "symbol_at (matrix s1) origin = Some (numbers (types s) ! 0)"
    using o by (simp add: s1_def)
  define s2 where "s2 = s1\<lparr>matrix := set_cell (matrix s1) origin (slice (numbers (types s) ! 0) 2 (- 2))\<rparr>"
  have um: "unmask s1 (fst origin) (snd origin) = (Inr (), s2)"
    unfolding s2_def by (rule unmask_value [OF d1 g1 v])
  have at: "symbol_at (matrix s2) d =
     (if d = origin then Some (slice (numbers (types s) ! 0) 2 (- 2)) else symbol_at (matrix s) d)" for d
    using symbol_at_set_cell [OF d1 g1, of "slice (numbers (types s) ! 0) 2 (- 2)" d]
    by (simp add: s2_def) (simp add: s1_def)
  have "dims s2" unfolding s2_def by (rule dims_set_cell [OF d1])
  moreover have "rows s2 = rows s" "columns s2 = columns s" "types s2 = types s"
    by (simp_all add: s2_def s1_def types_def)
  moreover have "symbol_at (matrix s2) d = symbol_at (matrix s) d \<or>
       d \<in> revealed_region s origin \<and>
       symbol_at (matrix s2) d = map_option (\<lambda>v. slice v 2 (- 2)) (symbol_at (matrix s) d)" for d
    using zero_region_in_region [OF zr g] o(2) by (simp add: at)
  moreover have "\<exists>n m. s2 = s\<lparr>calls := n, matrix := m\<rparr>"
    unfolding s2_def s1_def by auto
  ultimately have inv2: "reveal_inv s origin s2" by (intro reveal_invI)
  have "numbers (types s) ! 0 = spoilerize (spaces s) (number_names ! 0)"
    by (simp add: number_symbol)
  then have "slice (numbers (types s) ! 0) 2 (- 2) \<noteq> numbers (types s) ! 0"
    by (simp add: slice_spoilerize_neq)
  with o(2) have ch2: "changed s s2 = {origin}" by (auto simp: changed_def at)
  from revealSurroundings_inv(1) [OF start TrueI inv2 zr] obtain s3 where
    r: "revealSurroundings origin True s2 = (Inr (), s3)" "reveal_inv s origin s3"
      "changed s s2 \<subseteq> changed s s3" "pending s origin s3 \<subseteq> pending s origin s2 - {origin}"
    by blast
  have "pending s origin s2 \<subseteq> {origin}" using ch2 by (auto simp: pending_def)
  with r(4) have "pending s origin s3 = {}" by blast
  moreover from r(3) ch2 have "origin \<in> changed s s3" by simp
  ultimately have ch3: "changed s s3 = revealed_region s origin"
    using r(2) by (intro nothing_pending)
  have "revealFirst s = (Inr origin, s3)"
    using assms(4,5) zf len pick um r(1)
    by (simp add: revealFirst_def next_rng_def s1_def [symmetric] k_def [symmetric])
  with start r(2) ch3 show ?thesis by blast
qed



section \<open>generateEmptyMatrix\<close>

lemma generateEmptyMatrix_loop_value:
  assumes "0 \<le> columns s" and "columns s \<le> 4294967295"
  shows "generateEmptyMatrix_loop i s =
     (Inr (), s\<lparr>matrix := matrix s @
        replicate (nat (rows s - i)) (replicate (nat (columns s)) (numbers (types s) ! 0))\<rparr>)"
  using assms
proof (induction i s rule: generateEmptyMatrix_loop.induct)
  case (1 i s)
  show ?case
  proof (cases "i < rows s")
    case True
    define s1 where "s1 = s\<lparr>matrix := matrix s @ [replicate (nat (columns s)) (numbers (types s) ! 0)]\<rparr>"
    have n: "new_filled_array (columns s) (numbers (types s) ! 0) =
       Inr (replicate (nat (columns s)) (numbers (types s) ! 0))"
      using "1.prems" by (simp add: new_filled_array_def)
    have "generateEmptyMatrix_loop (i + 1) s1 =
     (Inr (), s1\<lparr>matrix := matrix s1 @
        replicate (nat (rows s1 - (i + 1))) (replicate (nat (columns s1)) (numbers (types s1) ! 0))\<rparr>)"
      using "1.prems" unfolding s1_def by (intro "1.IH" [OF True n]) simp_all
    moreover have "nat (rows s - i) = Suc (nat (rows s - (i + 1)))" using True by simp
    ultimately have "generateEmptyMatrix_loop (i + 1) s1 =
     (Inr (), s\<lparr>matrix := matrix s @
        replicate (nat (rows s - i)) (replicate (nat (columns s)) (numbers (types s) ! 0))\<rparr>)"
      by (simp add: s1_def types_def)
    then show ?thesis
      using True n by (subst generateEmptyMatrix_loop.simps) (simp add: s1_def)
  next
    case False
    then show ?thesis by (subst generateEmptyMatrix_loop.simps) simp
  qed
qed

lemma generateEmptyMatrix_value:
  assumes "0 \<le> rows s" and "0 \<le> columns s" and "columns s \<le> 4294967295" and "matrix s = []"
  shows "generateEmptyMatrix s =
     (Inr (), s\<lparr>matrix := replicate (nat (rows s)) (replicate (nat (columns s)) (numbers (types s) ! 0))\<rparr>)"
    and "dims (s\<lparr>matrix := replicate (nat (rows s)) (replicate (nat (columns s)) (numbers (types s) ! 0))\<rparr>)"
  using assms generateEmptyMatrix_loop_value [of s 0]
  by (simp_all add: generateEmptyMatrix_def dims_def)

section \<open>plantMines\<close>

lemma in_grid_matrix: "in_grid (s\<lparr>matrix := m\<rparr>) = in_grid s"
  by (simp add: fun_eq_iff in_grid_def)

text \<open>Every draw of a source of doubles in \<open>[0, 1)\<close> is a coordinate of the grid.\<close>

lemma draw_in_grid:
  assumes "0 < rows s" and "rows s \<le> 2 ^ 53" and "0 < columns s" and "columns s \<le> 2 ^ 53"
    and "\<forall>n. to_double (rng s n) = rng s n" and "\<forall>n. 0 \<le> rng s n \<and> rng s n < 1"
  shows "in_grid s (draw s k)"
proof -
  have r: "to_double (rng s n) = rng s n" "0 \<le> rng s n" "rng s n < 1" for n
    using assms(5,6) by simp_all
  show ?thesis
    using double_product_index [OF r assms(1,2)] double_product_index [OF r assms(3,4)]
    by (simp add: in_grid_def draw_def)
qed

lemma frame_calls_more [simp]:
  "is_mine (s\<lparr>calls := n\<rparr>) = is_mine s"
  "mine_set (s\<lparr>calls := n\<rparr>) = mine_set s"
  by (simp_all add: fun_eq_iff is_mine_def mine_set_def types_def)

lemma draw_shift: "draw (s\<lparr>calls := calls s + 2\<rparr>) k = draw s (Suc k)"
  by (simp add: draw_def add.commute add.left_commute)

lemma draw_shift_matrix: "draw (s\<lparr>calls := calls s + 2, matrix := m\<rparr>) k = draw s (Suc k)"
  by (simp add: draw_def add.commute add.left_commute)

text \<open>One pass of the loop, on a grid and with a draw that falls in it.\<close>

lemma plantMines_body_value:
  assumes "dims s" and "in_grid s (draw s 0)"
  shows "plantMines_body s =
     (if is_mine s (draw s 0) then (Inr False, s\<lparr>calls := calls s + 2\<rparr>)
      else (Inr True, s\<lparr>calls := calls s + 2,
                        matrix := set_cell (matrix s) (draw s 0) (mine (types s))\<rparr>))"
proof -
  define x where "x = \<lfloor>double_product (rng s (calls s)) (real_of_int (rows s))\<rfloor>"
  define y where "y = \<lfloor>double_product (rng s (Suc (calls s))) (real_of_int (columns s))\<rfloor>"
  have c: "draw s 0 = (x, y)" by (simp add: draw_def x_def y_def)
  from assms(2) have g: "in_grid s (x, y)" by (simp add: c)
  then have x: "0 \<le> x" "x < rows s" and y: "0 \<le> y" "y < columns s"
    by (simp_all add: in_grid_def)
  have row: "at_index (matrix s) x = Some (matrix s ! nat x)"
    using assms(1) x by (simp add: row_at)
  from cell_in_grid [OF assms(1) g]
  have "at_index (matrix s ! nat x) y = Some (matrix s ! nat x ! nat y)"
    using row by (simp add: symbol_at_def)
  then have len: "y < int (length (matrix s ! nat x))"
    by (simp add: at_index_def split: if_splits)
  have m: "is_mine s (x, y) \<longleftrightarrow> at_index (matrix s ! nat x) y = Some (mine (types s))"
    using row by (simp add: is_mine_def symbol_at_def)
  show ?thesis
    unfolding c using row y len m
    by (simp add: plantMines_body_def next_rng_def Let_def x_def [symmetric] y_def [symmetric]
        types_def set_cell_def)
qed

lemma finite_grid: "finite {c. in_grid s c}"
proof -
  have "{c. in_grid s c} \<subseteq> {0..<rows s} \<times> {0..<columns s}"
    by (auto simp: in_grid_def)
  then show ?thesis by (rule finite_subset) simp
qed

lemma finite_mine_set: "dims s \<Longrightarrow> finite (mine_set s)"
  using is_mine_in_grid [of s] by (intro finite_subset [OF _ finite_grid [of s]]) (auto simp: mine_set_def)

lemma mine_set_planted:
  assumes "dims s" and "in_grid s c"
  shows "mine_set (s\<lparr>calls := n, matrix := set_cell (matrix s) c (mine (types s))\<rparr>) = insert c (mine_set s)"
  using symbol_at_set_cell [OF assms] by (auto simp: mine_set_def is_mine_def types_def)

lemma draws_Suc: "draw s ` {..<Suc n} = insert (draw s 0) ((\<lambda>k. draw s (Suc k)) ` {..<n})"
  by (simp add: lessThan_Suc_eq_insert_0 image_image)

text \<open>
  The loop returns once the draws to come hold as many coordinates without a mine as
  mines are still to plant, and then it has planted exactly that many.
\<close>

lemma plantMines_loop_returns:
  assumes "dims s" and "\<forall>k. in_grid s (draw s k)"
    and "nat (mines s - i) \<le> card (draw s ` {..<n} - mine_set s)"
  shows "\<exists>s'. plantMines_loop i s = Some (Inr (), s') \<and>
     s' = s\<lparr>calls := calls s', matrix := matrix s'\<rparr> \<and> dims s' \<and>
     mine_set s \<subseteq> mine_set s' \<and> card (mine_set s') = card (mine_set s) + nat (mines s - i) \<and>
     (\<forall>c. c \<notin> mine_set s' \<longrightarrow> symbol_at (matrix s') c = symbol_at (matrix s) c)"
  using assms
proof (induction n arbitrary: i s)
  case 0
  then have "\<not> i < mines s" by simp
  then have "plantMines_loop i s = Some (Inr (), s)" "nat (mines s - i) = 0"
    by (simp_all add: plantMines_loop.simps)
  with "0.prems"(1) show ?case by simp
next
  case (Suc n)
  show ?case
  proof (cases "i < mines s")
    case False
    then have "plantMines_loop i s = Some (Inr (), s)" "nat (mines s - i) = 0"
      by (simp_all add: plantMines_loop.simps)
    with Suc.prems(1) show ?thesis by simp
  next
    case True
    from Suc.prems(2) have g0: "in_grid s (draw s 0)" by blast
    note body = plantMines_body_value [OF Suc.prems(1) g0]
    note fin = finite_mine_set [OF Suc.prems(1)]
    show ?thesis
    proof (cases "is_mine s (draw s 0)")
      case hit: True
      define s1 where "s1 = s\<lparr>calls := calls s + 2\<rparr>"
      have loop: "plantMines_loop i s = plantMines_loop i s1"
        using True hit body by (subst plantMines_loop.simps) (simp add: s1_def)
      have ds: "(\<lambda>k. draw s (Suc k)) ` {..<n} = draw s1 ` {..<n}"
        unfolding s1_def draw_shift ..
      have ms: "mine_set s1 = mine_set s" by (simp add: s1_def)
      have "draw s ` {..<Suc n} - mine_set s = draw s1 ` {..<n} - mine_set s1"
        using hit unfolding draws_Suc ds ms by (auto simp: mine_set_def)
      with Suc.prems(3) have "nat (mines s1 - i) \<le> card (draw s1 ` {..<n} - mine_set s1)"
        by (simp add: s1_def)
      moreover have "dims s1" using Suc.prems(1) by (simp add: s1_def)
      moreover have "\<forall>k. in_grid s1 (draw s1 k)"
        using Suc.prems(2) unfolding s1_def draw_shift by simp
      ultimately obtain s' where
        r: "plantMines_loop i s1 = Some (Inr (), s')"
          "s' = s1\<lparr>calls := calls s', matrix := matrix s'\<rparr>" "dims s'"
          "mine_set s1 \<subseteq> mine_set s'"
          "card (mine_set s') = card (mine_set s1) + nat (mines s1 - i)"
          "\<forall>c. c \<notin> mine_set s' \<longrightarrow> symbol_at (matrix s') c = symbol_at (matrix s1) c"
        using Suc.IH [of s1 i] by blast
      from r(2) have "s' = s\<lparr>calls := calls s', matrix := matrix s'\<rparr>" by (simp add: s1_def)
      with loop r show ?thesis by (simp add: s1_def)
    next
      case miss: False
      define c where "c = draw s 0"
      define s1 where "s1 = s\<lparr>calls := calls s + 2, matrix := set_cell (matrix s) c (mine (types s))\<rparr>"
      have g: "in_grid s c" unfolding c_def by (rule g0)
      have loop: "plantMines_loop i s = plantMines_loop (i + 1) s1"
        using True miss body by (subst plantMines_loop.simps) (simp add: s1_def c_def)
      have ms: "mine_set s1 = insert c (mine_set s)"
        unfolding s1_def by (rule mine_set_planted [OF Suc.prems(1) g])
      have notin: "c \<notin> mine_set s" using miss by (simp add: mine_set_def c_def)
      have ds: "(\<lambda>k. draw s (Suc k)) ` {..<n} = draw s1 ` {..<n}"
        unfolding s1_def draw_shift_matrix ..
      have "draw s ` {..<Suc n} - mine_set s = insert c (draw s1 ` {..<n} - mine_set s1)"
        using notin unfolding draws_Suc ds ms c_def [symmetric] by auto
      moreover have "c \<notin> draw s1 ` {..<n} - mine_set s1" by (simp add: ms)
      moreover have "finite (draw s1 ` {..<n} - mine_set s1)" by simp
      ultimately have "card (draw s ` {..<Suc n} - mine_set s) = Suc (card (draw s1 ` {..<n} - mine_set s1))"
        by simp
      with Suc.prems(3) True have "nat (mines s1 - (i + 1)) \<le> card (draw s1 ` {..<n} - mine_set s1)"
        by (simp add: s1_def)
      moreover have "dims s1" unfolding s1_def
        using dims_set_cell [OF Suc.prems(1), of c "mine (types s)"] by (simp add: dims_def)
      moreover have "\<forall>k. in_grid s1 (draw s1 k)"
        using Suc.prems(2) unfolding s1_def draw_shift_matrix by (simp add: in_grid_matrix)
      ultimately obtain s' where
        r: "plantMines_loop (i + 1) s1 = Some (Inr (), s')"
          "s' = s1\<lparr>calls := calls s', matrix := matrix s'\<rparr>" "dims s'"
          "mine_set s1 \<subseteq> mine_set s'"
          "card (mine_set s') = card (mine_set s1) + nat (mines s1 - (i + 1))"
          "\<forall>c. c \<notin> mine_set s' \<longrightarrow> symbol_at (matrix s') c = symbol_at (matrix s1) c"
        using Suc.IH [of s1 "i + 1"] by blast
      from r(2) have rec: "s' = s\<lparr>calls := calls s', matrix := matrix s'\<rparr>" by (simp add: s1_def)
      have sub: "mine_set s \<subseteq> mine_set s'" using r(4) ms by blast
      have "card (mine_set s1) = Suc (card (mine_set s))" using ms notin fin by simp
      with r(5) True have cd: "card (mine_set s') = card (mine_set s) + nat (mines s - i)"
        by (simp add: s1_def)
      have "symbol_at (matrix s') d = symbol_at (matrix s) d" if "d \<notin> mine_set s'" for d
      proof -
        from that r(4) ms have "d \<noteq> c" by blast
        then have "symbol_at (matrix s1) d = symbol_at (matrix s) d"
          using symbol_at_set_cell [OF Suc.prems(1) g, of "mine (types s)" d] by (simp add: s1_def)
        moreover from that r(6) have "symbol_at (matrix s') d = symbol_at (matrix s1) d"
          by blast
        ultimately show ?thesis by simp
      qed
      with loop r(1,3) rec sub cd show ?thesis by simp
    qed
  qed
qed

text \<open>The loop never returns when a mine is still to plant and every draw to come hits a mine.\<close>

lemma plantMines_loop_diverges:
  assumes "dims s" and "i < mines s" and "\<forall>k. is_mine s (draw s k)"
  shows "plantMines_loop i s = None"
proof -
  define stuck where "stuck i s \<longleftrightarrow> dims s \<and> i < mines s \<and> (\<forall>k. is_mine s (draw s k))" for i s
  have step: "\<not> stuck i s"
    if ih: "\<And>i s y. loop i s = Some y \<Longrightarrow> \<not> stuck i s"
      and eq: "(if i < mines s then
            (case plantMines_body s of
               (Inl e, s') \<Rightarrow> Some (Inl e, s')
             | (Inr planted, s') \<Rightarrow> loop ((if planted then i else i - 1) + 1) s')
          else Some (Inr (), s)) = Some y"
    for loop i s and y :: "(error + unit) \<times> Minesweeper"
  proof
    assume st: "stuck i s"
    then have "dims s" "is_mine s (draw s 0)" by (simp_all add: stuck_def)
    then have body: "plantMines_body s = (Inr False, s\<lparr>calls := calls s + 2\<rparr>)"
      using plantMines_body_value [of s] is_mine_in_grid [of s "draw s 0"] by simp
    from st have "i < mines s" by (simp add: stuck_def)
    with eq body have "loop i (s\<lparr>calls := calls s + 2\<rparr>) = Some y" by simp
    then have "\<not> stuck i (s\<lparr>calls := calls s + 2\<rparr>)" by (rule ih)
    moreover have "draw (s\<lparr>calls := calls s + 2\<rparr>) k = draw s (Suc k)" for k
      by (rule draw_shift)
    with st have "stuck i (s\<lparr>calls := calls s + 2\<rparr>)"
      unfolding stuck_def by simp
    ultimately show False by simp
  qed
  have "\<not> stuck i s" if "plantMines_loop i s = Some y" for i s y
    by (rule plantMines_loop.raw_induct [where P = "\<lambda>i s y. \<not> stuck i s", OF step that])
  moreover from assms have "stuck i s" by (simp add: stuck_def)
  ultimately show ?thesis by (cases "plantMines_loop i s") auto
qed

section \<open>The whole of start\<close>

lemma card_grid:
  assumes "0 \<le> rows s" and "0 \<le> columns s"
  shows "card {c. in_grid s c} = nat (rows s * columns s)"
proof -
  have "{c. in_grid s c} = {0..<rows s} \<times> {0..<columns s}"
    by (auto simp: in_grid_def)
  with assms show ?thesis by (simp add: card_cartesian_product nat_mult_distrib)
qed

lemma number_not_mine:
  assumes "emote s \<notin> set number_names" and "k \<le> 8"
  shows "numbers (types s) ! k \<noteq> mine (types s)"
proof
  assume "numbers (types s) ! k = mine (types s)"
  then have "spoilerize (spaces s) (number_names ! k) = spoilerize (spaces s) (emote s)"
    using assms(2) by (simp add: number_symbol) (simp add: types_def)
  then have "number_names ! k = emote s" by (rule spoilerize_inj)
  with number_name_in [OF assms(2)] assms(1) show False by simp
qed

lemma slice_not_mine: "slice (spoilerize sp name) 2 (- 2) \<noteq> spoilerize sp' e"
  unfolding slice_spoilerize by (simp add: spoilerize_def)

lemma symbol_is_mine:
  assumes "emote s \<notin> set number_names"
  shows "symbol s c = mine (types s) \<longleftrightarrow> is_mine s c"
  using number_not_mine [OF assms mine_count_le_8, of s c] by (simp add: symbol_def)

text \<open>What \<open>revealFirst\<close> leaves after \<open>populate\<close>, whichever branch it takes.\<close>

lemma revealFirst_post:
  assumes "dims s0" and "safeCells s0 = []" and "populate s0 = (Inr (), s)"
    and "0 \<le> rng s (calls s)" and "rng s (calls s) < 1"
    and "revealFirstCell s \<Longrightarrow> safeCells s \<noteq> []"
  shows "\<exists>c n m. revealFirst s = (Inr c, s\<lparr>calls := n, matrix := m\<rparr>) \<and>
     dims (s\<lparr>calls := n, matrix := m\<rparr>) \<and>
     (\<forall>d. symbol_at m d = symbol_at (matrix s) d \<or>
          in_grid s0 d \<and> \<not> is_mine s0 d \<and> symbol_at m d = Some (slice (symbol s0 d) 2 (- 2)))"
proof -
  note F = populate_facts [OF assms(1,3)]
  note safe = safe_cells_populated [OF assms(1,2,3)]
  consider (off) "\<not> revealFirstCell s"
    | (region) "revealFirstCell s" "zeroFirstCell s"
        "\<exists>c \<in> set (safeCells s). symbol_at (matrix s) c = Some (numbers (types s) ! 0)"
    | (one) "revealFirstCell s"
        "\<not> zeroFirstCell s \<or>
         (\<forall>c \<in> set (safeCells s). symbol_at (matrix s) c \<noteq> Some (numbers (types s) ! 0))"
    by blast
  then show ?thesis
  proof cases
    case off
    then have "revealFirst s = (Inr (- 1, - 1), s\<lparr>calls := calls s, matrix := matrix s\<rparr>)"
      by (simp add: revealFirst_def)
    moreover have "dims (s\<lparr>calls := calls s, matrix := matrix s\<rparr>)" using F(1) by simp
    ultimately show ?thesis by blast
  next
    case region
    from revealFirst_region [OF assms(1,2,3) region assms(4,5)] obtain origin s' where
      run: "revealFirst s = (Inr origin, s')" and start: "reveal_start s0 s origin"
      and inv: "reveal_inv s origin s'"
      by blast
    from reveal_inv_frame [OF inv] obtain n m where s': "s' = s\<lparr>calls := n, matrix := m\<rparr>"
      by blast
    from inv have d: "dims s'" by (simp add: reveal_inv_def)
    have "symbol_at m d = symbol_at (matrix s) d \<or>
          in_grid s0 d \<and> \<not> is_mine s0 d \<and> symbol_at m d = Some (slice (symbol s0 d) 2 (- 2))" for d
    proof (cases "symbol_at m d = symbol_at (matrix s) d")
      case True
      then show ?thesis by simp
    next
      case False
      with reveal_invD [OF inv, of d] have r: "d \<in> revealed_region s origin"
        "symbol_at m d = map_option (\<lambda>v. slice v 2 (- 2)) (symbol_at (matrix s) d)"
        by (simp_all add: s')
      from region_safe [OF start r(1)] have "in_grid s0 d" "\<not> is_mine s0 d" by simp_all
      with r(2) show ?thesis by (simp add: F(5))
    qed
    with run d show ?thesis unfolding s' by blast
  next
    case one
    from revealFirst_one [OF assms(1,2,3) one assms(6) [OF one(1)] assms(4,5)] obtain c where
      mem: "c \<in> set (safeCells s)"
      and run: "revealFirst s = (Inr c, s\<lparr>calls := Suc (calls s),
        matrix := set_cell (matrix s) c (slice (symbol s0 c) 2 (- 2))\<rparr>)"
      by blast
    from mem safe have c: "in_grid s0 c" "\<not> is_mine s0 c" by simp_all
    then have g: "in_grid s c" by (simp add: F(2))
    have "dims (s\<lparr>matrix := set_cell (matrix s) c (slice (symbol s0 c) 2 (- 2))\<rparr>)"
      by (rule dims_set_cell [OF F(1)])
    then have d: "dims (s\<lparr>calls := Suc (calls s),
        matrix := set_cell (matrix s) c (slice (symbol s0 c) 2 (- 2))\<rparr>)"
      by (simp add: dims_def)
    have "symbol_at (set_cell (matrix s) c (slice (symbol s0 c) 2 (- 2))) d = symbol_at (matrix s) d \<or>
          in_grid s0 d \<and> \<not> is_mine s0 d \<and>
          symbol_at (set_cell (matrix s) c (slice (symbol s0 c) 2 (- 2))) d =
            Some (slice (symbol s0 d) 2 (- 2))" for d
      using symbol_at_set_cell [OF F(1) g, of "slice (symbol s0 c) 2 (- 2)" d] c by simp
    with run d show ?thesis by blast
  qed
qed

lemma empty_field:
  assumes "emote s \<notin> set number_names"
    and "dims (s\<lparr>matrix := replicate h (replicate w (numbers (types s) ! 0))\<rparr>)"
  shows "mine_set (s\<lparr>matrix := replicate h (replicate w (numbers (types s) ! 0))\<rparr>) = {}"
proof -
  define s1 where "s1 = s\<lparr>matrix := replicate h (replicate w (numbers (types s) ! 0))\<rparr>"
  have "\<not> is_mine s1 c" for c
  proof
    assume m: "is_mine s1 c"
    from assms(2) have d: "dims s1" by (simp add: s1_def)
    from is_mine_in_grid [OF d m] have g: "in_grid s1 c" .
    then have "nat (fst c) < h" "nat (snd c) < w"
      using d by (auto simp: in_grid_def dims_def s1_def)
    with cell_in_grid [OF d g] have "symbol_at (matrix s1) c = Some (numbers (types s) ! 0)"
      by (simp add: s1_def)
    with m have "numbers (types s) ! 0 = mine (types s)"
      by (simp add: is_mine_def s1_def)
    with number_not_mine [OF assms(1), of 0] show False by simp
  qed
  then show ?thesis by (simp add: mine_set_def s1_def)
qed

subsection \<open>The field that start generates\<close>

text \<open>
  C1, as the code has it. Take a new instance with positive \<open>rows\<close> and \<open>columns\<close>, at
  most \<open>2^32 - 1\<close> cells (the longest array of the host language),
  \<open>rows * columns > 2 * mines\<close>, a mine emote that is none of the nine names of the
  numbers, and a random source whose values are doubles in \<open>[0, 1)\<close> and whose draws (pairs
  of consecutive values, each scaled to a row and a column by the rounded product and
  \<^verbatim>\<open>Math.floor\<close>) come to hold \<open>mines\<close> different coordinates. Then \<open>start\<close> returns, the
  matrix it leaves has \<open>rows\<close> rows of \<open>columns\<close> symbols, exactly \<open>mines\<close> of them the mine
  symbol, and the value returned is that matrix or its text, as the return type says.
\<close>

theorem start_generates:
  assumes "matrix s = []" and "safeCells s = []"
    and "0 < rows s" and "0 < columns s" and "rows s * columns s \<le> 4294967295"
    and "2 * mines s < rows s * columns s"
    and "emote s \<notin> set number_names"
    and "\<forall>n. to_double (rng s n) = rng s n"
    and "\<forall>n. 0 \<le> rng s n \<and> rng s n < 1"
    and "\<exists>n. nat (mines s) \<le> card (draw s ` {..<n})"
  shows "\<exists>out s'. start s = Some (Inr out, s') \<and> dims s' \<and>
     rows s' = rows s \<and> columns s' = columns s \<and>
     card {c. symbol_at (matrix s') c = Some (mine (types s))} = nat (mines s) \<and>
     out = (case returnType s of
              Emoji \<Rightarrow> Text (getTextRepresentation s')
            | Code \<Rightarrow> Text (fence @ getTextRepresentation s' @ fence)
            | Matrix \<Rightarrow> Grid (matrix s'))"
proof -
  \<comment> \<open>the sizes\<close>
  have "rows s * 1 \<le> rows s * columns s" "1 * columns s \<le> rows s * columns s"
    using assms(3,4) by (simp_all add: mult_le_cancel_left mult_le_cancel_right)
  with assms(5) have size: "rows s \<le> 4294967295" "columns s \<le> 4294967295" by simp_all
  note exact = assms(6)
  have dense: "\<not> double_product (real_of_int (rows s)) (real_of_int (columns s))
           \<le> double_product (real_of_int (mines s)) 2"
    using assms(3,4,5) exact density_test [of "rows s" "columns s" "mines s"] by simp
  \<comment> \<open>generateEmptyMatrix\<close>
  define s1 where "s1 = s\<lparr>matrix :=
    replicate (nat (rows s)) (replicate (nat (columns s)) (numbers (types s) ! 0))\<rparr>"
  have gen: "generateEmptyMatrix s = (Inr (), s1)" and d1: "dims s1"
    using generateEmptyMatrix_value [of s] assms(1,3,4) size by (simp_all add: s1_def)
  have m1: "mine_set s1 = {}"
    unfolding s1_def by (rule empty_field [OF assms(7) d1 [unfolded s1_def]])
  \<comment> \<open>plantMines\<close>
  from assms(10) obtain n where n: "nat (mines s) \<le> card (draw s ` {..<n})" by blast
  have dr: "draw s1 = draw s" by (simp add: fun_eq_iff draw_def s1_def)
  have "in_grid s (draw s k)" for k
    using assms(3,4,8,9) size by (intro draw_in_grid) simp_all
  then have g1: "\<forall>k. in_grid s1 (draw s1 k)"
    unfolding dr by (simp add: s1_def in_grid_matrix)
  from n m1 dr have "nat (mines s1 - 0) \<le> card (draw s1 ` {..<n} - mine_set s1)"
    by (simp add: s1_def)
  then obtain s2 where
    plant: "plantMines_loop 0 s1 = Some (Inr (), s2)"
    and f2: "s2 = s1\<lparr>calls := calls s2, matrix := matrix s2\<rparr>"
    and d2: "dims s2"
    and c2: "card (mine_set s2) = card (mine_set s1) + nat (mines s1 - 0)"
    using plantMines_loop_returns [OF d1 g1, of 0 n] by blast
  from f2 obtain k2 m2 where f2': "s2 = s1\<lparr>calls := k2, matrix := m2\<rparr>" by blast
  have e2: "rows s2 = rows s" "columns s2 = columns s" "mines s2 = mines s"
    "safeCells s2 = []" "types s2 = types s" "rng s2 = rng s" "returnType s2 = returnType s"
    "emote s2 = emote s" "spaces s2 = spaces s"
    using assms(2) unfolding f2' by (simp_all add: s1_def types_def)
  from c2 m1 have card2: "card (mine_set s2) = nat (mines s)" by (simp add: s1_def)
  \<comment> \<open>populate\<close>
  define s3 where "s3 = s2\<lparr>safeCells := safeCells s2 @ safe_list s2 (grid_cells s2 0 (nat (rows s2))),
    matrix := symbol_matrix s2 0 (nat (rows s2))\<rparr>"
  have pop: "populate s2 = (Inr (), s3)"
    unfolding s3_def by (rule populate_value [OF d2])
  note F = populate_facts [OF d2 pop]
  have e3: "rng s3 = rng s" "returnType s3 = returnType s"
    by (simp_all add: s3_def e2)
  \<comment> \<open>a safe cell is left\<close>
  have sub: "mine_set s2 \<subseteq> {c. in_grid s2 c}"
    using is_mine_in_grid [OF d2] by (auto simp: mine_set_def)
  have "card {c. in_grid s2 c} = nat (rows s * columns s)"
    using card_grid [of s2] assms(3,4) by (simp add: e2)
  moreover have "0 < rows s * columns s" using assms(3,4) by simp
  ultimately have "card (mine_set s2) < card {c. in_grid s2 c}"
    using card2 exact by (simp add: nat_less_iff)
  with sub have "mine_set s2 \<noteq> {c. in_grid s2 c}" by auto
  with sub obtain c where "in_grid s2 c" "\<not> is_mine s2 c" by (auto simp: mine_set_def)
  then have "c \<in> set (safeCells s3)"
    using safe_cells_populated [OF d2 e2(4) pop] by simp
  then have ne: "safeCells s3 \<noteq> []" by auto
  \<comment> \<open>revealFirst\<close>
  have r3: "0 \<le> rng s3 (calls s3)" "rng s3 (calls s3) < 1" using assms(9) by (simp_all add: e3)
  from revealFirst_post [OF d2 e2(4) pop r3 ne] obtain c' k m where
    rev: "revealFirst s3 = (Inr c', s3\<lparr>calls := k, matrix := m\<rparr>)"
    and d4: "dims (s3\<lparr>calls := k, matrix := m\<rparr>)"
    and sym: "\<And>d. symbol_at m d = symbol_at (matrix s3) d \<or>
          in_grid s2 d \<and> \<not> is_mine s2 d \<and> symbol_at m d = Some (slice (symbol s2 d) 2 (- 2))"
    by blast
  define s4 where "s4 = s3\<lparr>calls := k, matrix := m\<rparr>"
  \<comment> \<open>the mine symbols\<close>
  have em: "emote s2 \<notin> set number_names" using assms(7) by (simp add: e2)
  have "symbol_at m d = Some (mine (types s)) \<longleftrightarrow> is_mine s2 d" for d
  proof (cases "symbol_at m d = symbol_at (matrix s3) d")
    case True
    show ?thesis
    proof (cases "in_grid s2 d")
      case g: True
      with True F(5) [of d] symbol_is_mine [OF em, of d] show ?thesis by (simp add: e2)
    next
      case g: False
      with True F(5) [of d] is_mine_in_grid [OF d2, of d] show ?thesis by auto
    qed
  next
    case False
    with sym [of d] have nm: "\<not> is_mine s2 d"
      and v: "symbol_at m d = Some (slice (symbol s2 d) 2 (- 2))" by simp_all
    from nm have "symbol s2 d = spoilerize (spaces s2) (number_names ! mine_count s2 d)"
      by (rule symbol_number)
    then have "slice (symbol s2 d) 2 (- 2) \<noteq> mine (types s)"
      using slice_not_mine [of "spaces s2" _ "spaces s" "emote s"] by (simp add: types_def)
    with nm v show ?thesis by simp
  qed
  then have "{c. symbol_at (matrix s4) c = Some (mine (types s))} = mine_set s2"
    by (simp add: s4_def mine_set_def)
  with card2 have cnt: "card {c. symbol_at (matrix s4) c = Some (mine (types s))} = nat (mines s)"
    by simp
  \<comment> \<open>start\<close>
  have "start s = Some (Inr (case returnType s of
              Emoji \<Rightarrow> Text (getTextRepresentation s4)
            | Code \<Rightarrow> Text (fence @ getTextRepresentation s4 @ fence)
            | Matrix \<Rightarrow> Grid (matrix s4)), s4)"
    using dense gen plant pop rev
    by (simp add: start_def plantMines_def s4_def [symmetric])
      (simp add: s4_def e3)
  moreover have "dims s4" using d4 by (simp add: s4_def)
  moreover have "rows s4 = rows s" "columns s4 = columns s"
    by (simp_all add: s4_def s3_def e2)
  ultimately show ?thesis using cnt by blast
qed

theorem start_generates_witness:
  "matrix (constructor (\<lambda>n. 0) (Some two_mines_opts)) = [] \<and>
   rows (constructor (\<lambda>n. 0) (Some two_mines_opts)) = 3 \<and>
   columns (constructor (\<lambda>n. 0) (Some two_mines_opts)) = 3 \<and>
   mines (constructor (\<lambda>n. 0) (Some two_mines_opts)) = 2 \<and>
   to_double 0 = 0 \<and> to_double (1 / 2) = 1 / 2 \<and> double_product (1 / 2) 3 = 3 / 2 \<and>
   draw (constructor (\<lambda>n. 0) (Some two_mines_opts)) ` {..<2} = {(0, 0), (1, 1)} \<and>
   map_option fst (start (constructor (\<lambda>n. 0) (Some two_mines_opts))) =
     Some (Inr (Grid [[''||:boom:||'', ''||:two:||'', ''||:one:||''],
                      [''||:two:||'', ''||:boom:||'', '':one:''],
                      [''||:one:||'', ''||:one:||'', ''||:one:||'']])) \<and>
   (\<exists>out s'. start (constructor (\<lambda>n. 0) (Some two_mines_opts)) = Some (Inr out, s') \<and>
      dims s' \<and>
      card {c. symbol_at (matrix s') c =
                 Some (mine (types (constructor (\<lambda>n. 0) (Some two_mines_opts))))} = 2)"
proof -
  define s where "s = constructor (\<lambda>n. 0) (Some two_mines_opts)"
  have f: "matrix s = []" "safeCells s = []" "rows s = 3" "columns s = 3" "mines s = 2"
    "emote s = ''boom''" "calls s = 0" "rng s = (\<lambda>n. if n < 2 then 0 else 1 / 2)"
    by (simp_all add: s_def constructor_def two_mines_opts_def field_def or_number_def
        or_string_def nullish_def)
  have p: "to_double 0 = 0" "to_double (1 / 2) = 1 / 2" "double_product (1 / 2) 3 = 3 / 2"
    by code_simp+
  have 1: "0 < rows s" and 2: "0 < columns s" and 3: "rows s * columns s \<le> 4294967295"
    and 4: "2 * mines s < rows s * columns s"
    by (simp_all add: f)
  have 5: "emote s \<notin> set number_names" by (simp add: f number_names_def)
  have 6: "\<forall>n. to_double (rng s n) = rng s n" by (simp add: f p)
  have 7: "\<forall>n. 0 \<le> rng s n \<and> rng s n < 1" by (simp add: f)
  have dk: "draw s k = (if k = 0 then (0, 0) else (1, 1))" for k
    by (simp add: draw_def f p double_product_zero)
  have "{..<2::nat} = {0, 1}" by auto
  then have d: "draw s ` {..<2} = {(0, 0), (1, 1)}"
    by (auto simp: dk)
  then have "nat (mines s) \<le> card (draw s ` {..<2})" by (simp add: f)
  then have 8: "\<exists>n. nat (mines s) \<le> card (draw s ` {..<n})" by blast
  have e: "map_option fst (start (constructor (\<lambda>n. 0) (Some two_mines_opts))) =
     Some (Inr (Grid [[''||:boom:||'', ''||:two:||'', ''||:one:||''],
                      [''||:two:||'', ''||:boom:||'', '':one:''],
                      [''||:one:||'', ''||:one:||'', ''||:one:||'']]))"
    by code_simp
  from start_generates [OF f(1,2) 1 2 3 4 5 6 7 8]
  have "\<exists>out s'. start s = Some (Inr out, s') \<and> dims s' \<and>
      card {c. symbol_at (matrix s') c = Some (mine (types s))} = nat (mines s)"
    by blast
  with f p d e show ?thesis unfolding s_def by simp
qed

text \<open>
  C1 as stated fails in three ways, each on a configuration with
  \<open>rows * columns > 2 * mines\<close> and a random source that stays in \<open>[0, 1)\<close>: a source that
  always returns 0 draws the same cell for ever, and \<open>start\<close> does not return; a mine
  emote named \<open>one\<close> makes every cell of a 2 by 2 field with one mine hold the mine
  symbol; \<open>2^32\<close> columns end in the RangeError of the array constructor.
\<close>

theorem start_generates_counterexample:
  "2 * mines (constructor (\<lambda>n. 0) (Some constant_opts))
     < rows (constructor (\<lambda>n. 0) (Some constant_opts)) * columns (constructor (\<lambda>n. 0) (Some constant_opts)) \<and>
   (\<forall>n. 0 \<le> rng (constructor (\<lambda>n. 0) (Some constant_opts)) n \<and>
        rng (constructor (\<lambda>n. 0) (Some constant_opts)) n < 1) \<and>
   start (constructor (\<lambda>n. 0) (Some constant_opts)) = None \<and>
   map_option fst (start (constructor (\<lambda>n. 0) (Some one_opts))) =
     Some (Inr (Grid [[''|| :one: ||'', ''|| :one: ||''], [''|| :one: ||'', ''|| :one: ||'']])) \<and>
   mine (types (constructor (\<lambda>n. 0) (Some one_opts))) = ''|| :one: ||'' \<and>
   mines (constructor (\<lambda>n. 0) (Some one_opts)) = 1 \<and>
   map_option fst (start (constructor (\<lambda>n. 0) (Some wide_opts))) = Some (Inl RangeError)"
proof -
  define s where "s = constructor (\<lambda>n. 0) (Some constant_opts)"
  have f: "matrix s = []" "safeCells s = []" "rows s = 3" "columns s = 3" "mines s = 2"
    "emote s = ''boom''" "calls s = 0" "rng s = (\<lambda>n. 0)"
    by (simp_all add: s_def constructor_def constant_opts_def field_def or_number_def
        or_string_def nullish_def)
  define s1 where "s1 = s\<lparr>matrix :=
    replicate (nat (rows s)) (replicate (nat (columns s)) (numbers (types s) ! 0))\<rparr>"
  have gen: "generateEmptyMatrix s = (Inr (), s1)" and d1: "dims s1"
    using generateEmptyMatrix_value [of s] by (simp_all add: s1_def f)
  have em: "emote s \<notin> set number_names" by (simp add: f number_names_def)
  have m1: "mine_set s1 = {}"
    unfolding s1_def by (rule empty_field [OF em d1 [unfolded s1_def]])
  have dr1: "draw s1 k = (0, 0)" for k by (simp add: draw_def s1_def f double_product_zero)
  have g: "in_grid s1 (0, 0)" by (simp add: in_grid_def s1_def f)
  define s2 where "s2 = s1\<lparr>calls := calls s1 + 2,
    matrix := set_cell (matrix s1) (0, 0) (mine (types s1))\<rparr>"
  have "draw s1 0 \<notin> mine_set s1" unfolding m1 by blast
  then have "\<not> is_mine s1 (draw s1 0)" unfolding mine_set_def by blast
  then have body: "plantMines_body s1 = (Inr True, s2)"
    using plantMines_body_value [OF d1] g by (simp add: dr1 s2_def)
  have "0 < mines s1" by (simp add: s1_def f)
  with body have step: "plantMines_loop 0 s1 = plantMines_loop 1 s2"
    by (subst plantMines_loop.simps) simp
  have "mine_set s2 = insert (0, 0) (mine_set s1)"
    unfolding s2_def by (rule mine_set_planted [OF d1 g])
  then have m2: "is_mine s2 (0, 0)" by (auto simp: mine_set_def)
  have d2: "dims s2" unfolding s2_def
    using dims_set_cell [OF d1, of "(0, 0)" "mine (types s1)"] by (simp add: dims_def)
  have dr2: "draw s2 k = (0, 0)" for k
    by (simp add: draw_def s2_def s1_def f double_product_zero)
  have r2: "1 < mines s2" by (simp add: s2_def s1_def f)
  have "\<forall>k. is_mine s2 (draw s2 k)" using m2 by (simp add: dr2)
  with d2 r2 have "plantMines_loop 1 s2 = None" by (rule plantMines_loop_diverges)
  with step have "plantMines s1 = None" by (simp add: plantMines_def)
  moreover have "\<not> double_product 3 3 \<le> double_product 2 2" by code_simp
  ultimately have "start s = None" using gen by (simp add: start_def f)
  moreover have "map_option fst (start (constructor (\<lambda>n. 0) (Some one_opts))) =
     Some (Inr (Grid [[''|| :one: ||'', ''|| :one: ||''], [''|| :one: ||'', ''|| :one: ||'']]))"
    by code_simp
  moreover have "mine (types (constructor (\<lambda>n. 0) (Some one_opts))) = ''|| :one: ||''"
    "mines (constructor (\<lambda>n. 0) (Some one_opts)) = 1"
    by (simp_all add: constructor_def one_opts_def field_def or_number_def or_string_def
        nullish_def types_def spoilerize_def)
  moreover have "map_option fst (start (constructor (\<lambda>n. 0) (Some wide_opts))) = Some (Inl RangeError)"
    by code_simp
  ultimately show ?thesis using f unfolding s_def by simp
qed

section \<open>The constructor, the mask and the guards\<close>

subsection \<open>Constructor defaults\<close>

text \<open>
  C10. The constructor replaces a falsy \<open>rows\<close>, \<open>columns\<close>, \<open>mines\<close> or \<open>emote\<close> by its
  default: an explicit 0 (or an empty emote) is not kept, no more than a missing value
  or missing options are.
\<close>

theorem constructor_replaces_falsy:
  "mines (constructor mr (Some (opts\<lparr>opt_mines := Some 0\<rparr>))) = 10 \<and>
   rows (constructor mr (Some (opts\<lparr>opt_rows := Some 0\<rparr>))) = 9 \<and>
   columns (constructor mr (Some (opts\<lparr>opt_columns := Some 0\<rparr>))) = 9 \<and>
   emote (constructor mr (Some (opts\<lparr>opt_emote := Some []\<rparr>))) = ''boom'' \<and>
   mines (constructor mr (Some (opts\<lparr>opt_mines := None\<rparr>))) = 10 \<and>
   rows (constructor mr (Some (opts\<lparr>opt_rows := None\<rparr>))) = 9 \<and>
   columns (constructor mr (Some (opts\<lparr>opt_columns := None\<rparr>))) = 9 \<and>
   emote (constructor mr (Some (opts\<lparr>opt_emote := None\<rparr>))) = ''boom'' \<and>
   mines (constructor mr None) = 10 \<and> rows (constructor mr None) = 9 \<and>
   columns (constructor mr None) = 9 \<and> emote (constructor mr None) = ''boom''"
  by (simp add: constructor_def field_def or_number_def or_string_def)

subsection \<open>Masking and unmasking\<close>

text \<open>
  C5, as the code has it. Taking two characters off each end of a spoiler leaves
  \<open>:name:\<close> when the spacing flag is off, and \<open>:name:\<close> between two spaces when it is on.
\<close>

theorem unmask_spoilerize:
  "slice (spoilerize sp name) 2 (- 2) =
     (if sp then '' :'' @ name @ '': '' else '':'' @ name @ '':'')"
  by (rule slice_spoilerize)

text \<open>With the spacing flag on, the round trip of C5 fails for the name \<open>zero\<close>.\<close>

theorem unmask_spoilerize_counterexample:
  "slice (spoilerize True ''zero'') 2 (- 2) \<noteq> '':'' @ ''zero'' @ '':''"
  by (simp add: slice_def spoilerize_def Let_def)

subsection \<open>start on a field that is too dense\<close>

text \<open>
  C4. When \<open>rows * columns \<le> 2 * mines\<close>, \<open>start\<close> of a new instance returns \<open>null\<close> and
  leaves the instance as the constructor made it: the matrix is empty, no random value
  has been drawn. (The source compares the rounded products; rounding is monotone, so
  they compare as the exact ones do here.)
\<close>

theorem start_too_dense:
  assumes "s = constructor mr opts" and "rows s * columns s \<le> 2 * mines s"
  shows "start s = Some (Inr Null, s) \<and> matrix s = [] \<and> safeCells s = [] \<and> calls s = 0"
proof -
  from assms(2) have "real_of_int (rows s * columns s) \<le> real_of_int (mines s * 2)"
    by (simp only: of_int_le_iff mult.commute [of 2])
  then have "real_of_int (rows s) * real_of_int (columns s) \<le> real_of_int (mines s) * 2"
    by simp
  then have "double_product (real_of_int (rows s)) (real_of_int (columns s))
           \<le> double_product (real_of_int (mines s)) 2"
    by (rule double_product_mono)
  then have "start s = Some (Inr Null, s)" by (simp add: start_def)
  moreover have "matrix s = []" "safeCells s = []" "calls s = 0"
    by (simp_all add: assms(1) constructor_def)
  ultimately show ?thesis by simp
qed

theorem start_too_dense_witness:
  "rows (constructor (\<lambda>n. 0) (Some dense_opts)) * columns (constructor (\<lambda>n. 0) (Some dense_opts))
     \<le> 2 * mines (constructor (\<lambda>n. 0) (Some dense_opts)) \<and>
   start (constructor (\<lambda>n. 0) (Some dense_opts)) = Some (Inr Null, constructor (\<lambda>n. 0) (Some dense_opts)) \<and>
   matrix (constructor (\<lambda>n. 0) (Some dense_opts)) = []"
proof -
  have h: "rows (constructor (\<lambda>n. 0) (Some dense_opts)) * columns (constructor (\<lambda>n. 0) (Some dense_opts))
     \<le> 2 * mines (constructor (\<lambda>n. 0) (Some dense_opts))"
    by (simp add: constructor_def dense_opts_def field_def or_number_def)
  from start_too_dense [OF refl h] h show ?thesis by simp
qed

subsection \<open>revealFirst without a cell to reveal\<close>

text \<open>
  C8. With \<open>revealFirstCell\<close> off, \<open>revealFirst\<close> returns the coordinate \<open>(-1, -1)\<close> and
  the instance as it was: no cell of the matrix changes.
\<close>

theorem revealFirst_disabled:
  "\<not> revealFirstCell s \<Longrightarrow> revealFirst s = (Inr (- 1, - 1), s)"
  by (simp add: revealFirst_def)

theorem revealFirst_disabled_witness:
  "\<not> revealFirstCell (constructor (\<lambda>n. 0) None) \<and>
   revealFirst (constructor (\<lambda>n. 0) None) = (Inr (- 1, - 1), constructor (\<lambda>n. 0) None)"
proof -
  have h: "\<not> revealFirstCell (constructor (\<lambda>n. 0) None)"
    by (simp add: constructor_def field_def nullish_def)
  from revealFirst_disabled [OF h] h show ?thesis by simp
qed

text \<open>
  C6, as the code has it. With \<open>revealFirstCell\<close> on and no safe cell, \<open>revealFirst\<close>
  draws one random value, selects element 0 of the empty list and throws a TypeError
  reading its \<open>x\<close>; the matrix is as it was.
\<close>

theorem revealFirst_no_safeCells:
  "revealFirstCell s \<Longrightarrow> safeCells s = [] \<Longrightarrow>
     revealFirst s = (Inl TypeError, s\<lparr>calls := Suc (calls s)\<rparr>)"
  by (simp add: revealFirst_def next_rng_def at_index_def)

theorem revealFirst_no_safeCells_witness:
  "revealFirstCell (constructor (\<lambda>n. 0) (Some reveal_opts)) \<and>
   safeCells (constructor (\<lambda>n. 0) (Some reveal_opts)) = [] \<and>
   revealFirst (constructor (\<lambda>n. 0) (Some reveal_opts)) =
     (Inl TypeError, (constructor (\<lambda>n. 0) (Some reveal_opts))\<lparr>calls := 1\<rparr>)"
proof -
  have h1: "revealFirstCell (constructor (\<lambda>n. 0) (Some reveal_opts))"
    by (simp add: constructor_def reveal_opts_def field_def nullish_def)
  have h2: "safeCells (constructor (\<lambda>n. 0) (Some reveal_opts)) = []"
    by (simp add: constructor_def)
  have "calls (constructor (\<lambda>n. 0) (Some reveal_opts)) = 0"
    by (simp add: constructor_def)
  with revealFirst_no_safeCells [OF h1 h2] h1 h2 show ?thesis by simp
qed

text \<open>The guard C6 speaks of is not there: the call on a new instance ends in the exception.\<close>

theorem revealFirst_no_safeCells_counterexample:
  "safeCells (constructor (\<lambda>n. 0) (Some reveal_opts)) = [] \<and>
   revealFirstCell (constructor (\<lambda>n. 0) (Some reveal_opts)) \<and>
   fst (revealFirst (constructor (\<lambda>n. 0) (Some reveal_opts))) = Inl TypeError"
  by (simp add: revealFirst_def next_rng_def at_index_def constructor_def reveal_opts_def
      field_def nullish_def)

subsection \<open>Determinism\<close>

text \<open>
  C9. Two instances built from options that agree in every field but name their random
  sources separately, the two sources returning the same values call after call, give
  the same result of \<open>start\<close> (the same text, matrix, \<open>null\<close>, exception or endless run),
  whatever the default random source of either is.
\<close>

theorem start_deterministic:
  assumes "opt_rng o1 = Some r1" and "o2 = o1\<lparr>opt_rng := Some r2\<rparr>" and "\<forall>n. r1 n = r2 n"
  shows "map_option fst (start (constructor mr1 (Some o1))) =
         map_option fst (start (constructor mr2 (Some o2)))"
proof -
  from assms(3) have "r1 = r2" by (simp add: fun_eq_iff)
  with assms(1,2) have "o2 = o1" by simp
  moreover have "constructor mr1 (Some o1) = constructor mr2 (Some o1)"
    using assms(1) by (simp add: constructor_def field_def nullish_def)
  ultimately show ?thesis by simp
qed

theorem start_deterministic_witness:
  "map_option fst (start (constructor (\<lambda>n. 0) (Some (det_opts (\<lambda>n. 0))))) =
   map_option fst (start (constructor (\<lambda>n. 1 / 2) (Some (det_opts (\<lambda>n. 0 * real n))))) \<and>
   map_option fst (start (constructor (\<lambda>n. 0) (Some (det_opts (\<lambda>n. 0))))) =
     Some (Inr (Grid [[''|| :boom: ||'', '' :one: ''], [''|| :one: ||'', ''|| :one: ||'']]))"
proof -
  have "map_option fst (start (constructor (\<lambda>n. 0) (Some (det_opts (\<lambda>n. 0))))) =
     Some (Inr (Grid [[''|| :boom: ||'', '' :one: ''], [''|| :one: ||'', ''|| :one: ||'']]))"
    by code_simp
  moreover have "map_option fst (start (constructor (\<lambda>n. 0) (Some (det_opts (\<lambda>n. 0))))) =
     map_option fst (start (constructor (\<lambda>n. 1 / 2) (Some (det_opts (\<lambda>n. 0 * real n)))))"
    by (rule start_deterministic [where ?r1.0 = "\<lambda>n. 0" and ?r2.0 = "\<lambda>n. 0 * real n"])
      (simp_all add: det_opts_def)
  ultimately show ?thesis by simp
qed

end
